theory Spec2Isabelle
  imports Complex_Main "HOL-Library.Word"
begin

section \<open>Strings, bytes and errors\<close>

text \<open>
  A JavaScript string is modelled by the list of the bytes of its UTF-8 encoding, one
  \<^typ>\<open>char\<close> per byte.  Every pattern the program searches for (\<open>#\<close>, \<open>/\<close>,
  \<open>http\<close>, the line feed, \<open>BANDWIDTH=\<close>, the decimal digits) is ASCII, so prefix tests,
  searches, splitting and concatenation act on the bytes exactly as they act on the
  code units.  Only well-formed strings (no lone surrogate) have such an encoding.
\<close>

type_synonym byte = "8 word"

text \<open>
  The exceptions of the program.  A message built by a template literal around the
  message of a caught error is a constructor around that error:
  \<^item> \<open>ParseM3u8Failed e\<close> is the message of \<open>parseM3u8\<close>'s handler around \<open>e\<close>;
  \<^item> \<open>DownloadVideoFailed e\<close> is the message of \<open>downloadVideo\<close>'s handler around \<open>e\<close>;
  \<^item> \<open>DownloadPlaylistFailed e\<close> is the message of \<open>downloadPlaylist\<close>'s handler;
  \<^item> \<open>NoQualityPlaylists\<close>, \<open>NoTsSegments\<close> and \<open>PartialDownload\<close> are the three fixed
    messages thrown by \<open>parseM3u8\<close> (no rendition parsed), by \<open>downloadVideo\<close> (no
    segment) and by \<open>downloadInParallel\<close> (a slot found undefined);
  \<^item> \<open>SyntaxError\<close>, \<open>TypeError\<close> and \<open>RangeError\<close> are the platform's own;
  \<^item> \<open>NetworkError\<close> is a rejected \<open>fetch\<close>.
\<close>

datatype error =
    SyntaxError
  | TypeError
  | RangeError
  | NetworkError
  | NoQualityPlaylists
  | NoTsSegments
  | PartialDownload
  | ParseM3u8Failed error
  | DownloadVideoFailed error
  | DownloadPlaylistFailed error

definition startsWith :: "string \<Rightarrow> string \<Rightarrow> bool" where
  "startsWith s p = (take (length p) s = p)"

fun includes_str :: "string \<Rightarrow> string \<Rightarrow> bool" where
  "includes_str [] p = (p = [])"
| "includes_str (c # cs) p = (startsWith (c # cs) p \<or> includes_str cs p)"

text \<open>
  \<open>String.prototype.trim\<close> removes the code points of WhiteSpace and LineTerminator
  from both ends: U+0009 to U+000D, U+0020, U+00A0, U+1680, U+2000 to U+200A, U+2028,
  U+2029, U+202F, U+205F, U+3000 and U+FEFF.  \<open>whiteSpace\<close> lists their encodings.
\<close>

definition whiteSpace :: "string list" where
  "whiteSpace =
    [[CHR 0x09], [CHR 0x0A], [CHR 0x0B], [CHR 0x0C], [CHR 0x0D], [CHR 0x20],
     [CHR 0xC2, CHR 0xA0],
     [CHR 0xE1, CHR 0x9A, CHR 0x80],
     [CHR 0xE2, CHR 0x80, CHR 0x80], [CHR 0xE2, CHR 0x80, CHR 0x81],
     [CHR 0xE2, CHR 0x80, CHR 0x82], [CHR 0xE2, CHR 0x80, CHR 0x83],
     [CHR 0xE2, CHR 0x80, CHR 0x84], [CHR 0xE2, CHR 0x80, CHR 0x85],
     [CHR 0xE2, CHR 0x80, CHR 0x86], [CHR 0xE2, CHR 0x80, CHR 0x87],
     [CHR 0xE2, CHR 0x80, CHR 0x88], [CHR 0xE2, CHR 0x80, CHR 0x89],
     [CHR 0xE2, CHR 0x80, CHR 0x8A],
     [CHR 0xE2, CHR 0x80, CHR 0xA8], [CHR 0xE2, CHR 0x80, CHR 0xA9],
     [CHR 0xE2, CHR 0x80, CHR 0xAF],
     [CHR 0xE2, CHR 0x81, CHR 0x9F],
     [CHR 0xE3, CHR 0x80, CHR 0x80],
     [CHR 0xEF, CHR 0xBB, CHR 0xBF]]"

text \<open>Removing, from the front, every member of a list of non-empty prefixes.\<close>

function stripLeading :: "string list \<Rightarrow> string \<Rightarrow> string" where
  "stripLeading ws s =
     (case find (\<lambda>w. w \<noteq> [] \<and> startsWith s w) ws of
        None \<Rightarrow> s
      | Some w \<Rightarrow> stripLeading ws (drop (length w) s))"
  by pat_completeness auto
termination
proof (relation "measure (\<lambda>(ws, s). length s)")
  show "wf (measure (\<lambda>(ws, s). length s))" by simp
next
  fix ws :: "string list" and s w :: string
  assume "find (\<lambda>w. w \<noteq> [] \<and> startsWith s w) ws = Some w"
  then have "w \<noteq> []" and "startsWith s w"
    by (auto simp: find_Some_iff)
  then have "s \<noteq> []"
    by (auto simp: startsWith_def)
  with \<open>w \<noteq> []\<close> show "((ws, drop (length w) s), (ws, s)) \<in> measure (\<lambda>(ws, s). length s)"
    by simp
qed

definition trimStart :: "string \<Rightarrow> string" where
  "trimStart s = stripLeading whiteSpace s"

definition trimEnd :: "string \<Rightarrow> string" where
  "trimEnd s = rev (stripLeading (map rev whiteSpace) (rev s))"

definition trim :: "string \<Rightarrow> string" where
  "trim s = trimEnd (trimStart s)"

section \<open>Image proxy settings\<close>








section \<open>Numbers\<close>

text \<open>
  A finite JavaScript number is modelled by the rational it denotes.  \<open>toDouble\<close> is
  the rounding of IEEE 754 binary64 (53 significant bits, ties to the even
  significand) of a positive value with no bound on the exponent; \<open>fdiv\<close> and
  \<open>fmul\<close> are the correctly rounded division and multiplication, and \<open>Math_round\<close>
  is \<open>Math.round\<close>, which rounds a tie upwards.  The values rounded here are far
  from the subnormal range: the scheduler divides a count by the number of tasks and
  multiplies by 100, and \<open>parseInt\<close> rounds a natural number.
\<close>

definition pow2 :: "int \<Rightarrow> rat" where
  "pow2 k = (if 0 \<le> k then 2 ^ nat k else 1 / 2 ^ nat (- k))"

definition roundHalfEven :: "rat \<Rightarrow> int" where
  "roundHalfEven x =
     (let f = \<lfloor>x\<rfloor>; d = x - of_int f
      in if d < 1 / 2 then f else if 1 / 2 < d then f + 1 else if even f then f else f + 1)"

text \<open>
  The number of binary digits of a positive integer, and the binary exponent of a
  positive rational: the \<open>e\<close> with \<open>2 ^ e \<le> x < 2 ^ (e + 1)\<close>.
\<close>

function bitLength :: "int \<Rightarrow> nat" where
  "bitLength n = (if n \<le> 0 then 0 else Suc (bitLength (n div 2)))"
  by pat_completeness auto
termination
  by (relation "measure nat") auto

declare bitLength.simps [simp del]

definition ilog2 :: "rat \<Rightarrow> int" where
  "ilog2 x = (if 1 \<le> x then int (bitLength \<lfloor>x\<rfloor>) - 1
              else - int (bitLength (\<lceil>1 / x\<rceil> - 1)))"

definition toDouble :: "rat \<Rightarrow> rat" where
  "toDouble x =
     (if x \<le> 0 then 0
      else let q = pow2 (ilog2 x - 52) in of_int (roundHalfEven (x / q)) * q)"

definition fdiv :: "rat \<Rightarrow> rat \<Rightarrow> rat" where
  "fdiv x y = toDouble (x / y)"

definition fmul :: "rat \<Rightarrow> rat \<Rightarrow> rat" where
  "fmul x y = toDouble (x * y)"

definition Math_round :: "rat \<Rightarrow> int" where
  "Math_round x = \<lfloor>x + 1 / 2\<rfloor>"

text \<open>\<open>Math.round((downloadedCount / tsUrls.length) * 100)\<close>.\<close>

definition percentage :: "nat \<Rightarrow> nat \<Rightarrow> int" where
  "percentage downloaded totalCount = Math_round (fmul (fdiv (of_nat downloaded) (of_nat totalCount)) 100)"

text \<open>
  The percentage as the specification writes it, \<open>round(completedCount / totalCount * 100)\<close>,
  in exact arithmetic: the quotient and the product are rationals, and \<open>round\<close> is
  the nearest integer, a tie going upwards.
\<close>

definition specPercentage :: "nat \<Rightarrow> nat \<Rightarrow> int" where
  "specPercentage completedCount totalCount =
     round (of_nat completedCount / of_nat totalCount * 100 :: rat)"

text \<open>
  A Number that is a double or \<open>Infinity\<close>, and the test \<open>x < y\<close> on such numbers.
\<close>

datatype number = Finite rat | Infinity

fun numberLess :: "number \<Rightarrow> number \<Rightarrow> bool" where
  "numberLess (Finite x) (Finite y) = (x < y)"
| "numberLess (Finite x) Infinity = True"
| "numberLess Infinity y = False"

text \<open>
  The Number value of a natural number: the nearest double, and \<open>Infinity\<close> when the
  rounding reaches \<open>2 ^ 1024\<close> (its binary exponent is 1024 or more), which is from
  \<open>2 ^ 1024 - 2 ^ 970\<close> on.
\<close>

definition toNumber :: "int \<Rightarrow> number" where
  "toNumber n =
     (let r = toDouble (of_int n) in if 1024 \<le> ilog2 r then Infinity else Finite r)"

section \<open>Playlist resolution\<close>

text \<open>
  \<open>text.split('\n')\<close>: the pieces between line feeds; the empty text has one empty
  piece, and a text that ends with a line feed has an empty last piece.
\<close>

fun split_lines :: "string \<Rightarrow> string list" where
  "split_lines [] = [[]]"
| "split_lines (c # cs) =
     (if c = CHR 0x0A then [] # split_lines cs
      else (case split_lines cs of
              [] \<Rightarrow> [[c]]
            | l # ls \<Rightarrow> (c # l) # ls))"

text \<open>\<open>s.lastIndexOf(c)\<close>: the last index of the character, or \<open>-1\<close>.\<close>

fun lastIndexFrom :: "nat \<Rightarrow> int \<Rightarrow> string \<Rightarrow> char \<Rightarrow> int" where
  "lastIndexFrom i found [] c = found"
| "lastIndexFrom i found (x # xs) c = lastIndexFrom (Suc i) (if x = c then int i else found) xs c"

definition lastIndexOf :: "string \<Rightarrow> char \<Rightarrow> int" where
  "lastIndexOf s c = lastIndexFrom 0 (- 1) s c"

text \<open>\<open>s.substring(0, k)\<close> for an integer \<open>k\<close>: a negative end counts as zero.\<close>

definition substring0 :: "string \<Rightarrow> int \<Rightarrow> string" where
  "substring0 s k = take (nat k) s"

definition baseUrlOf :: "string \<Rightarrow> string" where
  "baseUrlOf m3u8Url = substring0 m3u8Url (lastIndexOf m3u8Url (CHR ''/'') + 1)"

text \<open>
  The three rules that turn a trimmed playlist line into a locator.  \<open>URL_parse\<close>
  stands for the platform's \<open>new URL(m3u8Url)\<close>: \<open>None\<close> when the constructor throws
  its TypeError, and otherwise the pair of the \<open>protocol\<close> (with its colon) and the
  \<open>host\<close> of the parsed URL.
\<close>

definition resolveUrl :: "(string \<Rightarrow> (string \<times> string) option) \<Rightarrow> string \<Rightarrow> string \<Rightarrow> error + string" where
  "resolveUrl URL_parse m3u8Url line =
     (if startsWith line ''http'' then Inr line
      else if startsWith line ''/'' then
        (case URL_parse m3u8Url of
           None \<Rightarrow> Inl TypeError
         | Some (protocol, host) \<Rightarrow> Inr (protocol @ ''//'' @ host @ line))
      else Inr (baseUrlOf m3u8Url @ line))"

text \<open>
  \<open>line.match(/BANDWIDTH=(\d+)/)\<close>: the leftmost place where \<open>BANDWIDTH=\<close> is followed
  by a digit, and there the longest run of digits.  \<open>parseInt\<close> of a run of decimal
  digits with radix 10 is the Number value of the number written: a double, so two
  runs of digits that differ only beyond the 53rd significant bit can give the same
  bandwidth.  (The engine is taken to round the number as written, as V8 does; the
  language lets an engine replace the digits after the 20th by zeros first.)
\<close>

definition isDigit :: "char \<Rightarrow> bool" where
  "isDigit c = (48 \<le> (of_char c :: nat) \<and> (of_char c :: nat) \<le> 57)"

fun matchBandwidth :: "string \<Rightarrow> string option" where
  "matchBandwidth [] = None"
| "matchBandwidth (c # cs) =
     (if startsWith (c # cs) ''BANDWIDTH='' \<and> takeWhile isDigit (drop 10 (c # cs)) \<noteq> []
      then Some (takeWhile isDigit (drop 10 (c # cs)))
      else matchBandwidth cs)"

definition digitsValue :: "string \<Rightarrow> int" where
  "digitsValue ds = foldl (\<lambda>n d. 10 * n + (of_char d - 48)) 0 ds"

definition parseInt :: "string \<Rightarrow> number" where
  "parseInt ds = toNumber (digitsValue ds)"

record rendition =
  quality :: number
  url :: string

definition bandwidthOf :: "string \<Rightarrow> number" where
  "bandwidthOf line = (case matchBandwidth line of None \<Rightarrow> Finite 0 | Some ds \<Rightarrow> parseInt ds)"

text \<open>
  The loop over the lines of a master playlist.  At a line that (trimmed) starts with
  the marker, the next line, if there is one, is trimmed, and a non-empty next line that
  is not a comment gives one rendition.  The recursion goes on with the line after the
  marker, as the loop's \<open>i++\<close> does.
\<close>

fun parseMasterLines ::
  "(string \<Rightarrow> (string \<times> string) option) \<Rightarrow> string \<Rightarrow> string list \<Rightarrow> error + rendition list" where
  "parseMasterLines URL_parse m3u8Url [] = Inr []"
| "parseMasterLines URL_parse m3u8Url (l # rest) =
     (if startsWith (trim l) ''#EXT-X-STREAM-INF'' then
        (case rest of
           [] \<Rightarrow> Inr []
         | nl # _ \<Rightarrow>
             if trim nl \<noteq> [] \<and> \<not> startsWith (trim nl) ''#'' then
               (case resolveUrl URL_parse m3u8Url (trim nl) of
                  Inl e \<Rightarrow> Inl e
                | Inr playlistUrl \<Rightarrow>
                    (case parseMasterLines URL_parse m3u8Url rest of
                       Inl e \<Rightarrow> Inl e
                     | Inr ps \<Rightarrow>
                         Inr (\<lparr>quality = bandwidthOf (trim l), url = playlistUrl\<rparr> # ps)))
             else parseMasterLines URL_parse m3u8Url rest)
      else parseMasterLines URL_parse m3u8Url rest)"

text \<open>
  \<open>qualityPlaylists.sort((a, b) => b.quality - a.quality)\<close>.  \<open>compareQuality a b\<close> is
  the sign of \<open>b.quality - a.quality\<close>; for two renditions of bandwidth \<open>Infinity\<close>
  the difference is \<open>NaN\<close>, which \<open>sort\<close> takes as zero.  \<open>Array.prototype.sort\<close> is
  stable, so its result is that of the stable insertion sort: an element goes in front
  of the first element that the comparison does not put before it.
\<close>

definition compareQuality :: "rendition \<Rightarrow> rendition \<Rightarrow> int" where
  "compareQuality a b =
     (if numberLess (quality a) (quality b) then 1
      else if numberLess (quality b) (quality a) then - 1 else 0)"

fun insertByQuality :: "rendition \<Rightarrow> rendition list \<Rightarrow> rendition list" where
  "insertByQuality a [] = [a]"
| "insertByQuality a (b # bs) =
     (if compareQuality a b \<le> 0 then a # b # bs else b # insertByQuality a bs)"

definition sortByQuality :: "rendition list \<Rightarrow> rendition list" where
  "sortByQuality ps = foldr insertByQuality ps []"

text \<open>The loop over the lines of a media playlist.\<close>

fun parseMediaLines ::
  "(string \<Rightarrow> (string \<times> string) option) \<Rightarrow> string \<Rightarrow> string list \<Rightarrow> error + string list" where
  "parseMediaLines URL_parse m3u8Url [] = Inr []"
| "parseMediaLines URL_parse m3u8Url (line # rest) =
     (if trim line \<noteq> [] \<and> \<not> startsWith (trim line) ''#'' then
        (case resolveUrl URL_parse m3u8Url (trim line) of
           Inl e \<Rightarrow> Inl e
         | Inr tsUrl \<Rightarrow>
             (case parseMediaLines URL_parse m3u8Url rest of
                Inl e \<Rightarrow> Inl e
              | Inr tsUrls \<Rightarrow> Inr (tsUrl # tsUrls)))
      else parseMediaLines URL_parse m3u8Url rest)"

text \<open>
  \<open>parseM3u8\<close>.  \<open>fetchText\<close> stands for \<open>fetch\<close> followed by \<open>response.text()\<close>: the
  text of the document at a locator, or the error of a rejected request.  A master
  playlist whose best rendition is again a master playlist recurses with no bound,
  so the function is partial: \<open>None\<close> is a resolution that never returns.
  Every error raised inside, also by the recursive call, is caught and wrapped.
\<close>

definition wrapParse :: "error + string list \<Rightarrow> error + string list" where
  "wrapParse r = (case r of Inl e \<Rightarrow> Inl (ParseM3u8Failed e) | Inr tsUrls \<Rightarrow> Inr tsUrls)"

partial_function (option) parseM3u8 ::
  "(string \<Rightarrow> error + string) \<Rightarrow> (string \<Rightarrow> (string \<times> string) option) \<Rightarrow> string
     \<Rightarrow> (error + string list) option" where
  "parseM3u8 fetchText URL_parse m3u8Url =
     (case fetchText m3u8Url of
        Inl e \<Rightarrow> Some (Inl (ParseM3u8Failed e))
      | Inr text \<Rightarrow>
          if includes_str text ''#EXT-X-STREAM-INF'' then
            (case parseMasterLines URL_parse m3u8Url (split_lines text) of
               Inl e \<Rightarrow> Some (Inl (ParseM3u8Failed e))
             | Inr qualityPlaylists \<Rightarrow>
                 if length qualityPlaylists = 0 then Some (Inl (ParseM3u8Failed NoQualityPlaylists))
                 else
                   Option.bind
                     (parseM3u8 fetchText URL_parse (url (hd (sortByQuality qualityPlaylists))))
                     (\<lambda>r. Some (wrapParse r)))
          else Some (wrapParse (parseMediaLines URL_parse m3u8Url (split_lines text))))"

declare parseM3u8.simps [code]
declare stripLeading.simps [simp del]

section \<open>Assembling the segments\<close>

text \<open>
  An array of buffers as \<open>downloadVideo\<close> builds it: \<open>new Array(n)\<close> has \<open>n\<close> indices
  and no element, and an assignment \<open>tsBuffers[index] = buffer\<close> creates the element.
  \<open>None\<close> is an index with no element (a hole), \<open>Some buffer\<close> an element.
\<close>

record blob =
  blobBytes :: "byte list"
  blobType :: string

text \<open>
  \<open>buffers.reduce((acc, buffer) => acc + buffer.byteLength, 0)\<close>: \<open>reduce\<close> calls the
  function for the elements that exist.
\<close>

definition totalSize :: "byte list option list \<Rightarrow> nat" where
  "totalSize buffers =
     foldl (\<lambda>acc slot. case slot of None \<Rightarrow> acc | Some buffer \<Rightarrow> acc + length buffer) 0 buffers"

text \<open>\<open>result.set(source, offset)\<close>: a RangeError when the source does not fit.\<close>

definition typedArraySet :: "byte list \<Rightarrow> byte list \<Rightarrow> nat \<Rightarrow> error + byte list" where
  "typedArraySet result source offset =
     (if length result < offset + length source then Inl RangeError
      else Inr (take offset result @ source @ drop (offset + length source) result))"

text \<open>
  The \<open>for ... of\<close> loop visits every index.  At a hole the value is \<open>undefined\<close>:
  \<open>new Uint8Array(undefined)\<close> is empty, and reading \<open>buffer.byteLength\<close> throws the
  TypeError.
\<close>

fun copyBuffers :: "byte list option list \<Rightarrow> byte list \<Rightarrow> nat \<Rightarrow> error + byte list" where
  "copyBuffers [] result offset = Inr result"
| "copyBuffers (None # buffers) result offset =
     (case typedArraySet result [] offset of
        Inl e \<Rightarrow> Inl e
      | Inr r \<Rightarrow> Inl TypeError)"
| "copyBuffers (Some buffer # buffers) result offset =
     (case typedArraySet result buffer offset of
        Inl e \<Rightarrow> Inl e
      | Inr r \<Rightarrow> copyBuffers buffers r (offset + length buffer))"

definition mergeArrayBuffers :: "byte list option list \<Rightarrow> error + blob" where
  "mergeArrayBuffers buffers =
     (case copyBuffers buffers (replicate (totalSize buffers) 0) 0 of
        Inl e \<Rightarrow> Inl e
      | Inr result \<Rightarrow> Inr \<lparr>blobBytes = result, blobType = ''video/mp4''\<rparr>)"

section \<open>The scheduler of \<open>downloadVideo\<close>\<close>

text \<open>
  JavaScript runs one piece of code at a time, and a worker (a call chain of
  \<open>processTask\<close>) gives way only while it awaits its \<open>fetch\<close>.  So a worker is either
  awaiting the fetch of one task or has returned, and the run of the scheduler is a
  sequence of events: the fetch of a worker is fulfilled, it is rejected, or the caller
  aborts the signal.  The response body of a locator is \<open>body tsUrl\<close>; which requests
  fail, how often and in which order the workers are served is the event list.

  The progress callback is called inside the \<open>try\<close> of \<open>processTask\<close>, after the
  buffer is stored and counted, so a callback that throws sends the worker into the
  \<open>catch\<close> like a rejected fetch.  Whether a call returns or throws is part of the
  event: \<open>Resolved w\<close> is a fulfilled fetch of worker \<open>w\<close> whose callback returns,
  \<open>ResolvedThrows w\<close> one whose callback throws.  \<open>progress\<close> lists the calls of the
  callback and \<open>fetched\<close> the calls of \<open>downloadTsSegment\<close>.
\<close>

datatype worker = Fetching nat string | Exited

datatype event = Resolved nat | ResolvedThrows nat | Rejected nat | Abort

record dl =
  taskQueue :: "(nat \<times> string) list"
  tsBuffers :: "byte list option list"
  downloadedCount :: nat
  activeTasks :: "worker list"
  aborted :: bool
  fetched :: "string list"
  progress :: "(int \<times> nat \<times> nat) list"

text \<open>
  \<open>processTask\<close> up to its \<open>await\<close>: the worker returns when the signal is aborted or
  the queue is empty, and otherwise takes the first task and starts its fetch.
\<close>

definition processTask :: "nat \<Rightarrow> dl \<Rightarrow> dl" where
  "processTask w s =
     (if aborted s then s\<lparr>activeTasks := (activeTasks s)[w := Exited]\<rparr>
      else
        (case taskQueue s of
           [] \<Rightarrow> s\<lparr>activeTasks := (activeTasks s)[w := Exited]\<rparr>
         | (index, tsUrl) # queue \<Rightarrow>
             s\<lparr>taskQueue := queue,
               activeTasks := (activeTasks s)[w := Fetching index tsUrl],
               fetched := fetched s @ [tsUrl]\<rparr>))"

text \<open>
  The statements after the \<open>await\<close> of a fulfilled fetch, up to the call of the
  callback: the buffer is stored at the index of the task, the count goes up by one
  and the callback is called with the rounded percentage, the count and the total.
\<close>

definition store :: "(string \<Rightarrow> byte list) \<Rightarrow> nat \<Rightarrow> nat \<Rightarrow> string \<Rightarrow> dl \<Rightarrow> dl" where
  "store body totalCount index tsUrl s =
     s\<lparr>tsBuffers := (tsBuffers s)[index := Some (body tsUrl)],
       downloadedCount := downloadedCount s + 1,
       progress := progress s @
         [(percentage (downloadedCount s + 1) totalCount, downloadedCount s + 1, totalCount)]\<rparr>"

text \<open>The continuation of a worker after its fetch was fulfilled, the callback returning.\<close>

definition onResolved :: "(string \<Rightarrow> byte list) \<Rightarrow> nat \<Rightarrow> nat \<Rightarrow> dl \<Rightarrow> dl" where
  "onResolved body totalCount w s =
     (case activeTasks s ! w of
        Exited \<Rightarrow> s
      | Fetching index tsUrl \<Rightarrow> processTask w (store body totalCount index tsUrl s))"

text \<open>
  The \<open>catch\<close> of \<open>processTask\<close>: the worker returns when the signal is aborted, and
  otherwise puts its task back at the front of the queue and goes on.
\<close>

definition onRejected :: "nat \<Rightarrow> dl \<Rightarrow> dl" where
  "onRejected w s =
     (case activeTasks s ! w of
        Exited \<Rightarrow> s
      | Fetching index tsUrl \<Rightarrow>
          if aborted s then s\<lparr>activeTasks := (activeTasks s)[w := Exited]\<rparr>
          else processTask w (s\<lparr>taskQueue := (index, tsUrl) # taskQueue s\<rparr>))"

text \<open>
  A fulfilled fetch whose callback throws: the buffer is stored and counted, the
  callback is called, and its exception is caught by the same \<open>catch\<close>.
\<close>

definition onCallbackThrows :: "(string \<Rightarrow> byte list) \<Rightarrow> nat \<Rightarrow> nat \<Rightarrow> dl \<Rightarrow> dl" where
  "onCallbackThrows body totalCount w s =
     (case activeTasks s ! w of
        Exited \<Rightarrow> s
      | Fetching index tsUrl \<Rightarrow> onRejected w (store body totalCount index tsUrl s))"

fun step :: "(string \<Rightarrow> byte list) \<Rightarrow> nat \<Rightarrow> dl \<Rightarrow> event \<Rightarrow> dl" where
  "step body totalCount s (Resolved w) =
     (if w < length (activeTasks s) then onResolved body totalCount w s else s)"
| "step body totalCount s (ResolvedThrows w) =
     (if w < length (activeTasks s) then onCallbackThrows body totalCount w s else s)"
| "step body totalCount s (Rejected w) =
     (if w < length (activeTasks s) then onRejected w s else s)"
| "step body totalCount s Abort = s\<lparr>aborted := True\<rparr>"

text \<open>An event list in which every call of the callback returns.\<close>

definition callbackReturns :: "event list \<Rightarrow> bool" where
  "callbackReturns evs =
     list_all (\<lambda>ev. case ev of ResolvedThrows w \<Rightarrow> False | _ \<Rightarrow> True) evs"

definition run :: "(string \<Rightarrow> byte list) \<Rightarrow> nat \<Rightarrow> event list \<Rightarrow> dl \<Rightarrow> dl" where
  "run body totalCount evs s = foldl (step body totalCount) s evs"

text \<open>\<open>activeTasks.push(processTask())\<close>, as often as the loop runs.\<close>

fun spawn :: "nat \<Rightarrow> dl \<Rightarrow> dl" where
  "spawn 0 s = s"
| "spawn (Suc k) s =
     spawn k (processTask (length (activeTasks s)) (s\<lparr>activeTasks := activeTasks s @ [Exited]\<rparr>))"

definition initial :: "string list \<Rightarrow> bool \<Rightarrow> dl" where
  "initial tsUrls a =
     \<lparr>taskQueue = zip [0..<length tsUrls] tsUrls,
      tsBuffers = replicate (length tsUrls) None,
      downloadedCount = 0,
      activeTasks = [],
      aborted = a,
      fetched = [],
      progress = []\<rparr>"

text \<open>The number of workers: the \<open>i\<close> with \<open>i < Math.min(maxConcurrent, tsUrls.length)\<close>.\<close>

definition workerCount :: "int \<Rightarrow> nat \<Rightarrow> nat" where
  "workerCount maxConcurrent totalCount = nat (min maxConcurrent (int totalCount))"

definition started :: "string list \<Rightarrow> int \<Rightarrow> dl" where
  "started tsUrls maxConcurrent =
     spawn (workerCount maxConcurrent (length tsUrls)) (initial tsUrls False)"

definition allExited :: "dl \<Rightarrow> bool" where
  "allExited s = list_all (\<lambda>t. t = Exited) (activeTasks s)"

text \<open>
  \<open>tsBuffers.every((buffer) => buffer !== undefined)\<close>: \<open>every\<close> calls the predicate
  for the elements that exist, and an element of this array is an \<open>ArrayBuffer\<close>,
  which is not \<open>undefined\<close>.
\<close>

definition notUndefined :: "byte list \<Rightarrow> bool" where
  "notUndefined buffer = True"

definition allDownloaded :: "byte list option list \<Rightarrow> bool" where
  "allDownloaded buffers =
     list_all (\<lambda>slot. case slot of None \<Rightarrow> True | Some buffer \<Rightarrow> notUndefined buffer) buffers"

text \<open>
  \<open>downloadInParallel\<close>: \<open>None\<close> while a worker still awaits its fetch at the end of
  the event list (the call has not returned).
\<close>

definition downloadInParallel ::
  "(string \<Rightarrow> byte list) \<Rightarrow> string list \<Rightarrow> int \<Rightarrow> event list \<Rightarrow> bool \<Rightarrow> (error option \<times> dl) option" where
  "downloadInParallel body tsUrls maxConcurrent evs signalAborted =
     (if signalAborted then Some (None, initial tsUrls True)
      else
        let s = run body (length tsUrls) evs (started tsUrls maxConcurrent)
        in if allExited s
           then Some (if allDownloaded (tsBuffers s) then None else Some PartialDownload, s)
           else None)"

section \<open>\<open>downloadVideo\<close> and \<open>downloadPlaylist\<close>\<close>

text \<open>
  What outlives one download: the caller's signal, the files handed to
  \<open>saveBlobToFile\<close>, and the logs of segment fetches and of progress calls.
\<close>

record world =
  signalAborted :: bool
  saved :: "(blob \<times> string) list"
  segmentFetches :: "string list"
  progressCalls :: "(int \<times> nat \<times> nat) list"
  seriesProgress :: "(nat \<times> nat \<times> int) list"

datatype outcome = Returned | Threw error

definition commit :: "dl \<Rightarrow> world \<Rightarrow> world" where
  "commit s w =
     w\<lparr>signalAborted := aborted s,
       segmentFetches := segmentFetches w @ fetched s,
       progressCalls := progressCalls w @ progress s\<rparr>"

definition saveBlobToFile :: "blob \<Rightarrow> string \<Rightarrow> world \<Rightarrow> world" where
  "saveBlobToFile b filename w = w\<lparr>saved := saved w @ [(b, filename)]\<rparr>"

text \<open>The \<open>catch\<close> of \<open>downloadVideo\<close>.\<close>

definition videoHandler :: "error \<Rightarrow> world \<Rightarrow> outcome \<times> world" where
  "videoHandler e w =
     (if signalAborted w then (Returned, w) else (Threw (DownloadVideoFailed e), w))"

definition downloadVideo ::
  "(string \<Rightarrow> error + string) \<Rightarrow> (string \<Rightarrow> (string \<times> string) option) \<Rightarrow> (string \<Rightarrow> byte list)
     \<Rightarrow> string \<Rightarrow> string \<Rightarrow> int \<Rightarrow> event list \<Rightarrow> world \<Rightarrow> (outcome \<times> world) option" where
  "downloadVideo fetchText URL_parse body m3u8Url filename maxConcurrent evs w =
     (case parseM3u8 fetchText URL_parse m3u8Url of
        None \<Rightarrow> None
      | Some (Inl e) \<Rightarrow> Some (videoHandler e w)
      | Some (Inr tsUrls) \<Rightarrow>
          if length tsUrls = 0 then Some (videoHandler NoTsSegments w)
          else
            (case downloadInParallel body tsUrls maxConcurrent evs (signalAborted w) of
               None \<Rightarrow> None
             | Some (Some e, s) \<Rightarrow> Some (videoHandler e (commit s w))
             | Some (None, s) \<Rightarrow>
                 (case mergeArrayBuffers (tsBuffers s) of
                    Inl e \<Rightarrow> Some (videoHandler e (commit s w))
                  | Inr mergedBlob \<Rightarrow>
                      Some (Returned, saveBlobToFile mergedBlob filename (commit s w)))))"

text \<open>Decimal digits of a number, and the title of an episode that has none.\<close>

fun showNat :: "nat \<Rightarrow> string" where
  "showNat n =
     (if n < 10 then [char_of (48 + n)]
      else showNat (n div 10) @ [char_of (48 + n mod 10)])"

definition episodeLabel :: "nat \<Rightarrow> string" where
  "episodeLabel n = [CHR 0xE7, CHR 0xAC, CHR 0xAC] @ showNat n @ [CHR 0xE9, CHR 0x9B, CHR 0x86]"

definition episodeFilename :: "string list \<Rightarrow> string \<Rightarrow> nat \<Rightarrow> string" where
  "episodeFilename titles baseFilename i =
     baseFilename @ '' - ''
       @ (if i < length titles \<and> titles ! i \<noteq> [] then titles ! i else episodeLabel (i + 1))
       @ ''.mp4''"

text \<open>
  The loop of \<open>downloadPlaylist\<close> from episode \<open>i\<close> on; \<open>schedule i\<close> is the event list
  of the download of episode \<open>i\<close>.  The callback it hands to \<open>downloadVideo\<close> passes
  the percentage on with the number of the episode and the number of episodes.
\<close>

definition forwardProgress :: "nat \<Rightarrow> nat \<Rightarrow> world \<Rightarrow> world \<Rightarrow> world" where
  "forwardProgress i totalCount before w =
     w\<lparr>seriesProgress := seriesProgress w @
         map (\<lambda>(p, c, t). (i + 1, totalCount, p))
           (drop (length (progressCalls before)) (progressCalls w))\<rparr>"

fun playlistLoop ::
  "(string \<Rightarrow> error + string) \<Rightarrow> (string \<Rightarrow> (string \<times> string) option) \<Rightarrow> (string \<Rightarrow> byte list)
     \<Rightarrow> string list \<Rightarrow> string \<Rightarrow> int \<Rightarrow> (nat \<Rightarrow> event list) \<Rightarrow> nat \<Rightarrow> nat \<Rightarrow> string list
     \<Rightarrow> world \<Rightarrow> (outcome \<times> world) option" where
  "playlistLoop fetchText URL_parse body titles baseFilename maxConcurrent schedule totalCount i [] w =
     Some (Returned, w)"
| "playlistLoop fetchText URL_parse body titles baseFilename maxConcurrent schedule totalCount i
     (m3u8Url # episodes) w =
     (if signalAborted w then Some (Returned, w)
      else
        (case downloadVideo fetchText URL_parse body m3u8Url
                (episodeFilename titles baseFilename i) maxConcurrent (schedule i) w of
           None \<Rightarrow> None
         | Some (Threw e, w') \<Rightarrow> Some (Threw e, forwardProgress i totalCount w w')
         | Some (Returned, w') \<Rightarrow>
             playlistLoop fetchText URL_parse body titles baseFilename maxConcurrent schedule
               totalCount (i + 1) episodes (forwardProgress i totalCount w w')))"

text \<open>\<open>downloadPlaylist\<close>: the loop inside its \<open>try\<close>, and its \<open>catch\<close>.\<close>

definition downloadPlaylist ::
  "(string \<Rightarrow> error + string) \<Rightarrow> (string \<Rightarrow> (string \<times> string) option) \<Rightarrow> (string \<Rightarrow> byte list)
     \<Rightarrow> string list \<Rightarrow> string list \<Rightarrow> string \<Rightarrow> int \<Rightarrow> (nat \<Rightarrow> event list)
     \<Rightarrow> world \<Rightarrow> (outcome \<times> world) option" where
  "downloadPlaylist fetchText URL_parse body episodes titles baseFilename maxConcurrent schedule w =
     (case playlistLoop fetchText URL_parse body titles baseFilename maxConcurrent schedule
             (length episodes) 0 episodes w of
        None \<Rightarrow> None
      | Some (Returned, w') \<Rightarrow> Some (Returned, w')
      | Some (Threw e, w') \<Rightarrow>
          if signalAborted w' then Some (Returned, w')
          else Some (Threw (DownloadPlaylistFailed e), w'))"

section \<open>Invariants of the scheduler\<close>

text \<open>Worker \<open>w\<close> awaits the fetch of task \<open>i\<close> at locator \<open>u\<close>.\<close>

definition fetchingAt :: "worker list \<Rightarrow> nat \<Rightarrow> nat \<Rightarrow> string \<Rightarrow> bool" where
  "fetchingAt ws w i u = (w < length ws \<and> ws ! w = Fetching i u)"

text \<open>
  What holds in every state of the scheduler: every task that is queued or in flight
  is a task of the playlist, a filled slot holds the body of its own task, and the
  callback was called once for each count so far.
\<close>

definition slotsOk :: "(string \<Rightarrow> byte list) \<Rightarrow> string list \<Rightarrow> dl \<Rightarrow> bool" where
  "slotsOk body tsUrls s =
     (length (tsBuffers s) = length tsUrls
      \<and> (\<forall>(i, u) \<in> set (taskQueue s). i < length tsUrls \<and> u = tsUrls ! i)
      \<and> (\<forall>w i u. fetchingAt (activeTasks s) w i u \<longrightarrow> i < length tsUrls \<and> u = tsUrls ! i)
      \<and> (\<forall>i < length tsUrls. tsBuffers s ! i = None \<or> tsBuffers s ! i = Some (body (tsUrls ! i)))
      \<and> progress s =
          map (\<lambda>k. (percentage k (length tsUrls), k, length tsUrls)) [1..<Suc (downloadedCount s)])"

text \<open>
  What holds as long as the callback returns: moreover every task that is queued or in
  flight has an empty slot, no task is queued or in flight twice, and the count is the
  number of filled slots.
\<close>

definition tasksOk :: "(string \<Rightarrow> byte list) \<Rightarrow> string list \<Rightarrow> dl \<Rightarrow> bool" where
  "tasksOk body tsUrls s =
     (length (tsBuffers s) = length tsUrls
      \<and> distinct (map fst (taskQueue s))
      \<and> (\<forall>(i, u) \<in> set (taskQueue s). i < length tsUrls \<and> u = tsUrls ! i \<and> tsBuffers s ! i = None)
      \<and> (\<forall>w i u. fetchingAt (activeTasks s) w i u \<longrightarrow>
            i < length tsUrls \<and> u = tsUrls ! i \<and> tsBuffers s ! i = None
            \<and> i \<notin> fst ` set (taskQueue s))
      \<and> (\<forall>w w' i u u'. fetchingAt (activeTasks s) w i u \<and> fetchingAt (activeTasks s) w' i u' \<longrightarrow> w = w')
      \<and> (\<forall>i < length tsUrls. tsBuffers s ! i = None \<or> tsBuffers s ! i = Some (body (tsUrls ! i)))
      \<and> downloadedCount s = length (filter (\<lambda>x. x \<noteq> None) (tsBuffers s))
      \<and> progress s =
          map (\<lambda>k. (percentage k (length tsUrls), k, length tsUrls)) [1..<Suc (downloadedCount s)])"

text \<open>
  While the signal is not aborted, a task with an empty slot is queued or in flight,
  and a worker has returned only when the queue was empty.
\<close>

definition noLoss :: "string list \<Rightarrow> dl \<Rightarrow> bool" where
  "noLoss tsUrls s =
     (\<not> aborted s \<longrightarrow>
        (\<forall>i < length tsUrls. tsBuffers s ! i = None \<longrightarrow>
            i \<in> fst ` set (taskQueue s) \<or> (\<exists>w u. fetchingAt (activeTasks s) w i u))
        \<and> (Exited \<in> set (activeTasks s) \<longrightarrow> taskQueue s = []))"

text \<open>The state after \<open>a\<close> workers have been started.\<close>

definition startedWith :: "string list \<Rightarrow> nat \<Rightarrow> dl" where
  "startedWith tsUrls a =
     \<lparr>taskQueue = drop a (zip [0..<length tsUrls] tsUrls),
      tsBuffers = replicate (length tsUrls) None,
      downloadedCount = 0,
      activeTasks = map (\<lambda>i. Fetching i (tsUrls ! i)) [0..<a],
      aborted = False,
      fetched = take a tsUrls,
      progress = []\<rparr>"

section \<open>Example inputs\<close>


definition exampleURL :: "string \<Rightarrow> (string \<times> string) option" where
  "exampleURL u = Some (''http:'', ''h'')"

definition masterText :: string where
  "masterText =
     ''#EXTM3U'' @ [CHR 0x0A]
     @ ''#EXT-X-STREAM-INF:PROGRAM-ID=1,BANDWIDTH=100,RESOLUTION=1x1'' @ [CHR 0x0D, CHR 0x0A]
     @ ''low.m3u8'' @ [CHR 0x0A]
     @ ''#EXT-X-STREAM-INF:BANDWIDTH=300'' @ [CHR 0x0A]
     @ '' /hi/index.m3u8 '' @ [CHR 0x0A]
     @ ''#EXT-X-STREAM-INF:BANDWIDTH=300'' @ [CHR 0x0A]
     @ ''http://x/hi2.m3u8''"

definition mediaText :: string where
  "mediaText =
     ''#EXTM3U'' @ [CHR 0x0A]
     @ ''#EXTINF:10,'' @ [CHR 0x0A]
     @ ''s0.ts'' @ [CHR 0x0D, CHR 0x0A]
     @ [CHR 0x0A]
     @ ''#EXTINF:10,'' @ [CHR 0x0A]
     @ ''/abs/s1.ts'' @ [CHR 0x0A]
     @ ''https://cdn/s2.ts'' @ [CHR 0x0A]
     @ ''#EXT-X-ENDLIST'' @ [CHR 0x0A]"

definition wideText :: string where
  "wideText =
     ''#EXTM3U'' @ [CHR 0x0A]
     @ ''#EXT-X-STREAM-INF:BANDWIDTH=9007199254740992'' @ [CHR 0x0A]
     @ ''a.m3u8'' @ [CHR 0x0A]
     @ ''#EXT-X-STREAM-INF:BANDWIDTH=9007199254740993'' @ [CHR 0x0A]
     @ ''b.m3u8'' @ [CHR 0x0A]"

definition seriesText :: string where
  "seriesText =
     ''#EXTM3U'' @ [CHR 0x0A] @ ''a.ts'' @ [CHR 0x0A] @ ''b.ts'' @ [CHR 0x0A] @ ''c.ts'' @ [CHR 0x0A]"

definition exampleFetch :: "string \<Rightarrow> error + string" where
  "exampleFetch u =
     (if u = ''http://h/m.m3u8'' then Inr masterText
      else if u = ''http://h/hi/index.m3u8'' then Inr mediaText
      else if u = ''http://h/w.m3u8'' then Inr wideText
      else if u = ''http://cdn/p/index.m3u8'' then Inr seriesText
      else if u = ''http://cdn/e/empty.m3u8'' then Inr ''#EXTM3U''
      else Inl NetworkError)"

definition exampleBody :: "string \<Rightarrow> byte list" where
  "exampleBody u =
     (if u = ''http://cdn/p/a.ts'' then [1, 2]
      else if u = ''http://cdn/p/b.ts'' then [3]
      else [4, 5, 6])"

definition exampleUrls :: "string list" where
  "exampleUrls = [''http://cdn/p/a.ts'', ''http://cdn/p/b.ts'', ''http://cdn/p/c.ts'']"

definition freshWorld :: world where
  "freshWorld =
     \<lparr>signalAborted = False, saved = [], segmentFetches = [], progressCalls = [],
      seriesProgress = []\<rparr>"

section \<open>The image proxy\<close>





section \<open>The rounding of the percentage\<close>

lemma roundHalfEven_error: "\<bar>of_int (roundHalfEven y) - y\<bar> \<le> 1 / 2"
proof -
  have "of_int \<lfloor>y\<rfloor> \<le> y" "y < of_int \<lfloor>y\<rfloor> + 1" by linarith+
  then show ?thesis
    by (auto simp: roundHalfEven_def Let_def abs_le_iff)
qed

lemma bitLength_bounds: "0 < n \<Longrightarrow> 2 ^ (bitLength n - 1) \<le> n \<and> n < 2 ^ bitLength n"
proof (induction n rule: bitLength.induct)
  case (1 n)
  show ?case
  proof (cases "n div 2 = 0")
    case True
    with 1(2) have "n = 1" by presburger
    then show ?thesis by (simp add: bitLength.simps [of 1] bitLength.simps [of 0])
  next
    case False
    with 1(2) have m: "0 < n div 2" by presburger
    let ?L = "bitLength (n div 2)"
    from 1(1) 1(2) m have ih: "2 ^ (?L - 1) \<le> n div 2" "n div 2 < 2 ^ ?L" by simp_all
    have L: "0 < ?L" using m by (simp add: bitLength.simps [of "n div 2"])
    have e: "bitLength n = Suc ?L" using 1(2) by (simp add: bitLength.simps [of n])
    from L have p: "(2::int) ^ ?L = 2 * 2 ^ (?L - 1)" by (cases ?L) simp_all
    have "2 * (n div 2) \<le> n" "n \<le> 2 * (n div 2) + 1" by presburger+
    with ih p show ?thesis unfolding e by simp
  qed
qed

lemma pow2_pos: "0 < pow2 k"
  by (simp add: pow2_def)

lemma pow2_powi: "pow2 k = 2 powi k"
proof (cases "0 \<le> k")
  case True
  then show ?thesis by (simp add: pow2_def power_int_def)
next
  case False
  have "inverse (2::rat) ^ nat (- k) = 1 / 2 ^ nat (- k)"
    by (simp add: power_one_over inverse_eq_divide)
  with False show ?thesis by (simp only: pow2_def power_int_def if_False)
qed

lemma divide_from_times: "c \<noteq> 0 \<Longrightarrow> a = b * c \<Longrightarrow> b = a / (c::rat)"
  by (simp add: field_simps)

lemma pow2_shift: "pow2 (e - 52) = pow2 e / 2 ^ 52"
proof -
  have "(2::rat) powi (e - 52 + int 52) = 2 powi (e - 52) * 2 powi int 52"
    by (rule power_int_add) simp
  moreover have "(2::rat) powi int 52 = 2 ^ 52"
    by (rule power_int_of_nat)
  moreover have "e - 52 + int 52 = e" by simp
  ultimately have "(2::rat) powi e = 2 powi (e - 52) * 2 ^ 52" by simp
  moreover have "(2::rat) ^ 52 \<noteq> 0" by simp
  ultimately have "(2::rat) powi (e - 52) = 2 powi e / 2 ^ 52"
    by (intro divide_from_times)
  then show ?thesis by (simp only: pow2_powi)
qed

lemma pow2_ilog2_le:
  assumes "0 < x"
  shows "pow2 (ilog2 x) \<le> x"
proof (cases "1 \<le> x")
  case True
  then have f: "0 < \<lfloor>x\<rfloor>" by simp
  let ?L = "bitLength \<lfloor>x\<rfloor>"
  from bitLength_bounds [OF f] have b: "2 ^ (?L - 1) \<le> \<lfloor>x\<rfloor>" by simp
  have L: "0 < ?L" using f by (simp add: bitLength.simps [of "\<lfloor>x\<rfloor>"])
  then have p: "pow2 (int ?L - 1) = 2 ^ (?L - 1)"
    by (simp add: pow2_def nat_diff_distrib')
  have "(of_int (2 ^ (?L - 1)) :: rat) \<le> of_int \<lfloor>x\<rfloor>"
    using b by (simp only: of_int_le_iff)
  then have "(2::rat) ^ (?L - 1) \<le> of_int \<lfloor>x\<rfloor>" by simp
  also have "of_int \<lfloor>x\<rfloor> \<le> x" by simp
  finally have "pow2 (int ?L - 1) \<le> x" unfolding p .
  then show ?thesis using True by (simp add: ilog2_def)
next
  case False
  with assms have "1 < 1 / x" by simp
  then have c: "2 \<le> \<lceil>1 / x\<rceil>" by linarith
  let ?m = "\<lceil>1 / x\<rceil> - 1"
  let ?L = "bitLength ?m"
  from c have m: "0 < ?m" by simp
  from bitLength_bounds [OF m] have "?m < 2 ^ ?L" by simp
  then have "\<lceil>1 / x\<rceil> \<le> 2 ^ ?L" by simp
  then have "1 / x \<le> of_int (2 ^ ?L)" by (simp only: ceiling_le_iff)
  then have "1 / x \<le> 2 ^ ?L" by simp
  with assms have x: "1 / 2 ^ ?L \<le> x"
    by (simp add: field_simps)
  have L: "0 < ?L" using m by (simp add: bitLength.simps [of ?m])
  then have "pow2 (- int ?L) = 1 / 2 ^ ?L" by (simp add: pow2_def)
  with x False show ?thesis by (simp add: ilog2_def)
qed

text \<open>The rounding to a double changes a positive value by at most one part in \<open>2 ^ 53\<close>.\<close>

lemma toDouble_error:
  assumes "0 < x"
  shows "\<bar>toDouble x - x\<bar> \<le> x / 2 ^ 53"
proof -
  define q where "q = pow2 (ilog2 x - 52)"
  have q: "0 < q" unfolding q_def by (rule pow2_pos)
  have "q = pow2 (ilog2 x) / 2 ^ 52" unfolding q_def by (rule pow2_shift)
  with pow2_ilog2_le [OF assms] have qx: "q \<le> x / 2 ^ 52"
    by (simp add: divide_right_mono)
  have t: "toDouble x = of_int (roundHalfEven (x / q)) * q"
    using assms by (simp add: toDouble_def q_def Let_def)
  have "toDouble x - x = (of_int (roundHalfEven (x / q)) - x / q) * q"
    unfolding t using q by (simp add: field_simps)
  then have "\<bar>toDouble x - x\<bar> = \<bar>of_int (roundHalfEven (x / q)) - x / q\<bar> * q"
    using q by (simp add: abs_mult)
  also have "\<dots> \<le> 1 / 2 * q"
    using roundHalfEven_error [of "x / q"] q by (intro mult_right_mono) simp_all
  also have "\<dots> \<le> 1 / 2 * (x / 2 ^ 52)"
    using qx by simp
  also have "\<dots> = x / 2 ^ 53" by simp
  finally show ?thesis .
qed

lemma toDouble_pos:
  assumes "0 < x"
  shows "0 < toDouble x"
proof -
  define e where "e = x / 2 ^ 53"
  from toDouble_error [OF assms] have "\<bar>toDouble x - x\<bar> \<le> e"
    unfolding e_def .
  moreover have "e < x" unfolding e_def using assms by simp
  ultimately show ?thesis by linarith
qed


lemma abs_sum_scaled: "\<bar>u + 100 * v\<bar> \<le> \<bar>u\<bar> + 100 * \<bar>v :: rat\<bar>"
proof -
  have "\<bar>u + 100 * v\<bar> \<le> \<bar>u\<bar> + \<bar>100 * v\<bar>" by (rule abs_triangle_ineq)
  moreover have "\<bar>100 * v\<bar> = 100 * \<bar>v\<bar>" by (simp add: abs_mult)
  ultimately show ?thesis by simp
qed

text \<open>
  The double that \<open>Math.round\<close> receives differs from the exact percentage by less than
  \<open>1 / (2 * n)\<close>, for a count below \<open>2 ^ 43\<close>.
\<close>

lemma percentage_close:
  assumes n: "0 < n" and k: "k < 2 ^ 43"
  shows "\<bar>fmul (fdiv (of_nat k) (of_nat n)) 100 - of_nat k / of_nat n * 100\<bar> < 1 / (2 * of_nat n)"
proof (cases "k = 0")
  case True
  then show ?thesis using n by (simp add: fmul_def fdiv_def toDouble_def)
next
  case False
  define a :: rat where "a = of_nat k / of_nat n"
  define q where "q = toDouble a"
  define p where "p = toDouble (q * 100)"
  define e :: rat where "e = 1 / 2 ^ 53"
  have a: "0 < a" unfolding a_def using False n by simp
  have e: "0 < e" "e \<le> 1" unfolding e_def by simp_all
  have qa: "\<bar>q - a\<bar> \<le> a * e"
    using toDouble_error [OF a] unfolding q_def e_def by simp
  have q: "0 < q" unfolding q_def using a by (rule toDouble_pos)
  then have "0 < q * 100" by simp
  from toDouble_error [OF this] have pq: "\<bar>p - q * 100\<bar> \<le> q * 100 * e"
    unfolding p_def e_def by simp
  from qa have "q \<le> a + a * e" by (simp add: abs_le_iff)
  also have "a * e \<le> a * 1" using a e(2) by (intro mult_left_mono) simp_all
  finally have q2: "q \<le> 2 * a" by simp
  have "q * e \<le> 2 * a * e"
    using q2 e(1) by (intro mult_right_mono) simp_all
  then have "q * 100 * e \<le> 200 * (a * e)" by (simp add: mult.commute mult.left_commute)
  with pq have pq': "\<bar>p - q * 100\<bar> \<le> 200 * (a * e)" by (rule order_trans)
  have "p - a * 100 = (p - q * 100) + 100 * (q - a)" by simp
  then have "\<bar>p - a * 100\<bar> \<le> \<bar>p - q * 100\<bar> + 100 * \<bar>q - a\<bar>"
    using abs_sum_scaled [of "p - q * 100" "q - a"] by (simp only:)
  with pq' qa have b: "\<bar>p - a * 100\<bar> \<le> 300 * (a * e)" by linarith
  have "600 * (of_nat k :: rat) < 600 * 2 ^ 43"
  proof -
    from k have "(of_nat k :: rat) < of_nat (2 ^ 43)" by (simp only: of_nat_less_iff)
    then show ?thesis by simp
  qed
  also have "(600 :: rat) * 2 ^ 43 < 2 ^ 53" by simp
  finally have "600 * (of_nat k :: rat) * e < 1" unfolding e_def by simp
  then have "300 * (of_nat k * e) / of_nat n < 1 / (2 * of_nat n :: rat)"
    using n by (simp add: field_simps)
  moreover have "300 * (a * e) = 300 * (of_nat k * e) / of_nat n"
    unfolding a_def by simp
  ultimately have "300 * (a * e) < 1 / (2 * of_nat n)" by simp
  with b have "\<bar>p - a * 100\<bar> < 1 / (2 * of_nat n)" by linarith
  then show ?thesis
    unfolding p_def q_def a_def fmul_def fdiv_def .
qed

lemma frac_half: "x + 1 / 2 = of_int r \<Longrightarrow> frac (x :: rat) = 1 / 2"
proof -
  assume h: "x + 1 / 2 = of_int r"
  then have x: "x = of_int (r - 1) + 1 / 2" by simp
  have "\<lfloor>x\<rfloor> = r - 1" unfolding x by (simp add: floor_unique)
  then show ?thesis unfolding frac_def using x by simp
qed

text \<open>
  So the percentage the callback receives is the exact percentage rounded, or one less;
  and it is the exact percentage rounded unless that lies halfway between two integers.
\<close>

lemma percentage_spec:
  assumes n: "0 < n" and k: "k < 2 ^ 43"
  shows "specPercentage k n - 1 \<le> percentage k n \<and> percentage k n \<le> specPercentage k n
    \<and> (frac (of_nat k / of_nat n * 100 :: rat) \<noteq> 1 / 2 \<longrightarrow> percentage k n = specPercentage k n)"
proof -
  define x :: rat where "x = of_nat k / of_nat n * 100"
  define p where "p = fmul (fdiv (of_nat k) (of_nat n)) 100"
  define r where "r = \<lfloor>x + 1 / 2\<rfloor>"
  define N where "N = 200 * int k + int n"
  define D where "D = 2 * int n"
  define d :: rat where "d = 1 / of_int D"
  have D: "0 < D" "2 \<le> D" unfolding D_def using n by simp_all
  then have Dr: "0 < (of_int D :: rat)" by simp
  have d: "0 < d" "d \<le> 1" unfolding d_def using D by simp_all
  have sp: "specPercentage k n = r"
    unfolding specPercentage_def r_def x_def round_def ..
  have pc: "percentage k n = \<lfloor>p + 1 / 2\<rfloor>"
    unfolding percentage_def Math_round_def p_def ..
  have "\<bar>p - x\<bar> < 1 / (2 * of_nat n)"
    unfolding p_def x_def using n k by (rule percentage_close)
  moreover have "1 / (2 * of_nat n) = d" unfolding d_def D_def by simp
  ultimately have px: "x - d < p" "p < x + d" by (simp_all add: abs_less_iff)
  have xN: "x + 1 / 2 = of_int N / of_int D"
    unfolding x_def N_def D_def using n by (simp add: field_simps)
  have r1: "of_int r \<le> x + 1 / 2" and r2: "x + 1 / 2 < of_int (r + 1)"
    unfolding r_def by linarith+
  have up: "x + 1 / 2 + d \<le> of_int (r + 1)"
  proof -
    from r2 have "of_int N < (of_int ((r + 1) * D) :: rat)"
      unfolding xN using Dr by (simp add: pos_divide_less_eq)
    then have "N < (r + 1) * D" by (simp only: of_int_less_iff)
    then have "N + 1 \<le> (r + 1) * D" by simp
    then have "(of_int (N + 1) :: rat) \<le> of_int ((r + 1) * D)" by (simp only: of_int_le_iff)
    then have "of_int N / of_int D + 1 / of_int D \<le> (of_int (r + 1) :: rat)"
      using Dr by (simp add: field_simps)
    then show ?thesis unfolding xN d_def .
  qed
  have lo: "of_int r \<le> x + 1 / 2 - d" if "x + 1 / 2 \<noteq> of_int r"
  proof -
    from r1 that have "of_int r < x + 1 / 2" by simp
    then have "(of_int (r * D) :: rat) < of_int N"
      unfolding xN using Dr by (simp add: pos_less_divide_eq)
    then have "r * D < N" by (simp only: of_int_less_iff)
    then have "r * D + 1 \<le> N" by simp
    then have "(of_int (r * D + 1) :: rat) \<le> of_int N" by (simp only: of_int_le_iff)
    then have "of_int r \<le> of_int N / of_int D - 1 / (of_int D :: rat)"
      using Dr by (simp add: field_simps)
    then show ?thesis unfolding xN d_def .
  qed
  have a: "r - 1 \<le> \<lfloor>p + 1 / 2\<rfloor>"
  proof -
    have "of_int (r - 1) \<le> p + 1 / 2" using r1 px(1) d(2) by simp
    then show ?thesis by (simp only: le_floor_iff)
  qed
  have b: "\<lfloor>p + 1 / 2\<rfloor> \<le> r"
  proof -
    have "p + 1 / 2 < of_int (r + 1)" using up px(2) by linarith
    then have "\<lfloor>p + 1 / 2\<rfloor> < r + 1" by (simp only: floor_less_iff)
    then show ?thesis by simp
  qed
  have c: "\<lfloor>p + 1 / 2\<rfloor> = r" if "frac x \<noteq> 1 / 2"
  proof -
    from that frac_half [of x r] have "x + 1 / 2 \<noteq> of_int r" by blast
    from lo [OF this] px(1) have "of_int r \<le> p + 1 / 2" by linarith
    then have "r \<le> \<lfloor>p + 1 / 2\<rfloor>" by (simp only: le_floor_iff)
    with b show ?thesis by simp
  qed
  from a b c show ?thesis unfolding sp pc x_def by blast
qed



section \<open>The Number value of an integer\<close>

lemma pow2_mono: "a \<le> b \<Longrightarrow> pow2 a \<le> pow2 b"
  unfolding pow2_powi by (rule power_int_increasing) simp_all

lemma pow2_strict_mono: "a < b \<Longrightarrow> pow2 a < pow2 b"
  unfolding pow2_powi by (rule power_int_strict_increasing) simp_all

lemma pow2_less_cancel: "pow2 a < pow2 b \<Longrightarrow> a < b"
  using pow2_mono [of b a] by (cases "a < b") auto

lemma pow2_nat: "pow2 (int m) = 2 ^ m"
  by (simp add: pow2_def)

lemma pow2_Suc: "pow2 (e + 1) = 2 * pow2 e"
proof -
  have "(2::rat) powi (e + 1) = 2 powi e * 2 powi 1"
    by (rule power_int_add) simp
  then show ?thesis by (simp add: pow2_powi)
qed

lemma ilog2_upper:
  assumes "0 < x"
  shows "x < pow2 (ilog2 x + 1)"
proof (cases "1 \<le> x")
  case True
  then have f: "0 < \<lfloor>x\<rfloor>" by simp
  let ?L = "bitLength \<lfloor>x\<rfloor>"
  from bitLength_bounds [OF f] have "\<lfloor>x\<rfloor> < 2 ^ ?L" by simp
  then have "\<lfloor>x\<rfloor> + 1 \<le> 2 ^ ?L" by simp
  then have "(of_int (\<lfloor>x\<rfloor> + 1) :: rat) \<le> of_int (2 ^ ?L)" by (simp only: of_int_le_iff)
  then have "of_int \<lfloor>x\<rfloor> + 1 \<le> (2::rat) ^ ?L" by simp
  moreover have "x < of_int \<lfloor>x\<rfloor> + 1" by linarith
  ultimately have "x < 2 ^ ?L" by linarith
  then have "x < pow2 (int ?L)" by (simp only: pow2_nat)
  then show ?thesis using True by (simp add: ilog2_def)
next
  case False
  with assms have "1 < 1 / x" by simp
  then have c: "2 \<le> \<lceil>1 / x\<rceil>" by linarith
  let ?m = "\<lceil>1 / x\<rceil> - 1"
  let ?L = "bitLength ?m"
  from c have m: "0 < ?m" by simp
  have L: "0 < ?L" using m by (simp add: bitLength.simps [of ?m])
  from bitLength_bounds [OF m] have "2 ^ (?L - 1) \<le> ?m" by simp
  then have "(of_int (2 ^ (?L - 1)) :: rat) \<le> of_int ?m" by (simp only: of_int_le_iff)
  then have "(2::rat) ^ (?L - 1) \<le> of_int \<lceil>1 / x\<rceil> - 1" by simp
  moreover have "of_int \<lceil>1 / x\<rceil> - 1 < 1 / x" by linarith
  ultimately have "(2::rat) ^ (?L - 1) < 1 / x" by linarith
  with assms have x: "x < 1 / 2 ^ (?L - 1)" by (simp add: field_simps)
  have "pow2 (- int ?L + 1) = 1 / 2 ^ (?L - 1)"
  proof (cases "?L = 1")
    case True
    then show ?thesis by (simp add: pow2_def)
  next
    case False
    with L have "- int ?L + 1 < 0" "nat (int ?L - 1) = ?L - 1" by simp_all
    then show ?thesis by (simp add: pow2_def)
  qed
  with x False show ?thesis by (simp add: ilog2_def)
qed

lemma ilog2_unique:
  assumes "pow2 e \<le> x" and "x < pow2 (e + 1)"
  shows "ilog2 x = e"
proof -
  have x: "0 < x" using assms(1) pow2_pos [of e] by linarith
  from pow2_ilog2_le [OF x] assms(2) have "pow2 (ilog2 x) < pow2 (e + 1)" by linarith
  then have "ilog2 x < e + 1" by (rule pow2_less_cancel)
  moreover from ilog2_upper [OF x] assms(1) have "pow2 e < pow2 (ilog2 x + 1)" by linarith
  then have "e < ilog2 x + 1" by (rule pow2_less_cancel)
  ultimately show ?thesis by simp
qed

lemma roundHalfEven_int: "roundHalfEven (of_int z) = z"
  by (simp add: roundHalfEven_def)

lemma roundHalfEven_ge: "of_int z \<le> y \<Longrightarrow> z \<le> roundHalfEven y"
proof -
  assume "of_int z \<le> y"
  then have "z \<le> \<lfloor>y\<rfloor>" by (simp only: le_floor_iff)
  moreover have "\<lfloor>y\<rfloor> \<le> roundHalfEven y" by (simp add: roundHalfEven_def Let_def)
  ultimately show ?thesis by simp
qed

text \<open>A double is not below the power of two under the value it comes from.\<close>

lemma toDouble_ge_pow2:
  assumes "0 < x"
  shows "pow2 (ilog2 x) \<le> toDouble x"
proof -
  define q where "q = pow2 (ilog2 x - 52)"
  have q: "0 < q" unfolding q_def by (rule pow2_pos)
  have pq: "pow2 (ilog2 x) = 2 ^ 52 * q"
    unfolding q_def pow2_shift by simp
  have t: "toDouble x = of_int (roundHalfEven (x / q)) * q"
    using assms by (simp add: toDouble_def q_def Let_def)
  have "2 ^ 52 * q \<le> x" using pow2_ilog2_le [OF assms] unfolding pq .
  then have "2 ^ 52 \<le> x / q" using q by (simp add: pos_le_divide_eq)
  then have "(of_int (2 ^ 52) :: rat) \<le> x / q" by simp
  then have "2 ^ 52 \<le> roundHalfEven (x / q)" by (rule roundHalfEven_ge)
  then have "(of_int (2 ^ 52) :: rat) \<le> of_int (roundHalfEven (x / q))" by (simp only: of_int_le_iff)
  then have "2 ^ 52 * q \<le> of_int (roundHalfEven (x / q)) * q"
    using q by (intro mult_right_mono) simp_all
  then show ?thesis unfolding pq t .
qed

text \<open>An integer of more than 1024 binary digits has the Number value \<open>Infinity\<close>.\<close>

lemma toNumber_overflow:
  assumes "2 ^ 1024 \<le> n"
  shows "toNumber n = Infinity"
proof -
  define x :: rat where "x = of_int n"
  have "(of_int (2 ^ 1024) :: rat) \<le> of_int n" using assms by (simp only: of_int_le_iff)
  then have x: "2 ^ 1024 \<le> x" unfolding x_def by simp
  then have x0: "0 < x" by (rule less_le_trans [rotated]) simp
  have "pow2 1024 \<le> x" using x pow2_nat [of 1024] by simp
  with ilog2_upper [OF x0] have "pow2 1024 < pow2 (ilog2 x + 1)" by linarith
  then have e: "1024 \<le> ilog2 x" using pow2_less_cancel [of 1024 "ilog2 x + 1"] by simp
  define r where "r = toDouble x"
  have "pow2 1024 \<le> pow2 (ilog2 x)" using e by (rule pow2_mono)
  also have "\<dots> \<le> r" unfolding r_def using x0 by (rule toDouble_ge_pow2)
  finally have r: "pow2 1024 \<le> r" .
  then have r0: "0 < r" using pow2_pos [of 1024] by linarith
  from ilog2_upper [OF r0] r have "pow2 1024 < pow2 (ilog2 r + 1)" by linarith
  then have "1024 \<le> ilog2 r" using pow2_less_cancel [of 1024 "ilog2 r + 1"] by simp
  then show ?thesis
    unfolding toNumber_def x_def [symmetric] r_def [symmetric] Let_def by simp
qed

text \<open>A natural number below \<open>2 ^ 53\<close> is its own Number value.\<close>

lemma toNumber_exact:
  assumes "0 \<le> n" and "n < 2 ^ 53"
  shows "toNumber n = Finite (of_int n)"
proof (cases "n = 0")
  case True
  have "ilog2 0 = 0" by (simp add: ilog2_def bitLength.simps [of "- 1"])
  then show ?thesis using True by (simp add: toNumber_def toDouble_def)
next
  case False
  define x :: rat where "x = of_int n"
  from False assms(1) have n: "0 < n" by simp
  then have x0: "0 < x" unfolding x_def by simp
  have "(of_int n :: rat) < of_int (2 ^ 53)" using assms(2) by (simp only: of_int_less_iff)
  then have x53: "x < pow2 53" unfolding x_def using pow2_nat [of 53] by simp
  with pow2_ilog2_le [OF x0] have "pow2 (ilog2 x) < pow2 53" by linarith
  then have e: "ilog2 x \<le> 52" using pow2_less_cancel [of "ilog2 x" 53] by simp
  define m where "m = nat (52 - ilog2 x)"
  define q where "q = pow2 (ilog2 x - 52)"
  have q: "q = 1 / 2 ^ m"
  proof (cases "ilog2 x = 52")
    case True
    then show ?thesis by (simp add: q_def m_def pow2_def)
  next
    case False
    with e have "\<not> 0 \<le> ilog2 x - 52" "- (ilog2 x - 52) = 52 - ilog2 x" by simp_all
    then show ?thesis unfolding q_def m_def pow2_def by (simp only: if_False)
  qed
  have "x / q = of_int (n * 2 ^ m)" unfolding q x_def by simp
  then have "roundHalfEven (x / q) = n * 2 ^ m" by (simp only: roundHalfEven_int)
  then have "toDouble x = of_int (n * 2 ^ m) * q"
    using x0 by (simp add: toDouble_def q_def Let_def)
  then have t: "toDouble x = x" unfolding q x_def by simp
  have "ilog2 x < 1024" using e by simp
  then show ?thesis
    unfolding toNumber_def x_def [symmetric] Let_def t by simp
qed

text \<open>So \<open>parseInt\<close> of a run of digits that writes a number below \<open>2 ^ 53\<close> is that number.\<close>

lemma digitsValue_from:
  "list_all isDigit ds \<Longrightarrow> 0 \<le> a \<Longrightarrow> 0 \<le> foldl (\<lambda>n d. 10 * n + (of_char d - 48)) (a::int) ds"
proof (induction ds arbitrary: a)
  case Nil
  then show ?case by simp
next
  case (Cons d ds)
  from Cons.prems(1) have "48 \<le> (of_char d :: nat)" by (simp add: isDigit_def)
  then have "int 48 \<le> int (of_char d)" by (simp only: of_nat_le_iff)
  then have "48 \<le> (of_char d :: int)" by (simp add: of_nat_of_char)
  with Cons.prems(2) have "0 \<le> 10 * a + (of_char d - 48)" by simp
  with Cons.IH [of "10 * a + (of_char d - 48)"] Cons.prems(1) show ?case by simp
qed

lemma parseInt_exact:
  assumes "list_all isDigit ds" and "digitsValue ds < 2 ^ 53"
  shows "parseInt ds = Finite (of_int (digitsValue ds))"
proof -
  have "0 \<le> digitsValue ds"
    unfolding digitsValue_def using assms(1) by (intro digitsValue_from) simp_all
  then show ?thesis
    unfolding parseInt_def using assms(2) by (rule toNumber_exact)
qed

section \<open>Playlist resolution\<close>

lemma lastIndexFrom_app:
  "lastIndexFrom i f (xs @ ys) c = lastIndexFrom (i + length xs) (lastIndexFrom i f xs c) ys c"
  by (induction xs arbitrary: i f) auto

lemma lastIndexFrom_none: "c \<notin> set xs \<Longrightarrow> lastIndexFrom i f xs c = f"
  by (induction xs arbitrary: i) auto

lemma baseUrlOf_no_slash: "CHR ''/'' \<notin> set m \<Longrightarrow> baseUrlOf m = []"
  by (simp add: baseUrlOf_def lastIndexOf_def lastIndexFrom_none substring0_def)

lemma baseUrlOf_last_slash:
  "CHR ''/'' \<notin> set rest \<Longrightarrow> baseUrlOf (dir @ ''/'' @ rest) = dir @ ''/''"
  by (simp add: baseUrlOf_def lastIndexOf_def lastIndexFrom_app lastIndexFrom_none
      substring0_def nat_add_distrib)

lemma parseMediaLines_map:
  "parseMediaLines U m ls = Inr urls \<Longrightarrow>
     map (\<lambda>l. resolveUrl U m (trim l)) (filter (\<lambda>l. trim l \<noteq> [] \<and> \<not> startsWith (trim l) ''#'') ls)
       = map Inr urls"
proof (induction ls arbitrary: urls)
  case Nil
  then show ?case by simp
next
  case (Cons l ls)
  then show ?case
    by (auto split: if_splits sum.splits)
qed

text \<open>
  Claim C5, amended.  A trimmed line is resolved by three rules: a line that starts with
  the four characters \<open>http\<close> is returned as it is; otherwise a line that starts with
  \<open>/\<close> is put behind the protocol, \<open>//\<close> and the host of the document's URL; any
  other line is put behind the document's URL cut after its last \<open>/\<close>.  The locators
  \<open>parseM3u8\<close> returns for a media playlist are these results for its lines that are
  neither blank nor comments, in the order of the lines.  With the base
  \<open>http://h/a/b/\<close> the lines \<open>c.ts\<close>, \<open>/c.ts\<close> and \<open>http://other/c.ts\<close> give
  \<open>http://h/a/b/c.ts\<close>, \<open>http://h/c.ts\<close> and \<open>http://other/c.ts\<close>.
\<close>

theorem resolveUrl_rules:
  "(startsWith line ''http'' \<longrightarrow> resolveUrl U m line = Inr line)
   \<and> (\<not> startsWith line ''http'' \<and> startsWith line ''/'' \<and> U m = Some (protocol, host) \<longrightarrow>
        resolveUrl U m line = Inr (protocol @ ''//'' @ host @ line))
   \<and> (\<not> startsWith line ''http'' \<and> \<not> startsWith line ''/'' \<and> CHR ''/'' \<notin> set rest \<longrightarrow>
        resolveUrl U (dir @ ''/'' @ rest) line = Inr (dir @ ''/'' @ line))
   \<and> (parseMediaLines U m ls = Inr urls \<longrightarrow>
        map (\<lambda>l. resolveUrl U m (trim l))
          (filter (\<lambda>l. trim l \<noteq> [] \<and> \<not> startsWith (trim l) ''#'') ls) = map Inr urls)
   \<and> (U ''http://h/a/b/'' = Some (''http:'', ''h'') \<longrightarrow>
        resolveUrl U ''http://h/a/b/'' ''c.ts'' = Inr ''http://h/a/b/c.ts''
        \<and> resolveUrl U ''http://h/a/b/'' ''/c.ts'' = Inr ''http://h/c.ts''
        \<and> resolveUrl U ''http://h/a/b/'' ''http://other/c.ts'' = Inr ''http://other/c.ts'')"
proof (intro conjI impI)
  assume "\<not> startsWith line ''http'' \<and> \<not> startsWith line ''/'' \<and> CHR ''/'' \<notin> set rest"
  then show "resolveUrl U (dir @ ''/'' @ rest) line = Inr (dir @ ''/'' @ line)"
    using baseUrlOf_last_slash [of rest dir] by (simp add: resolveUrl_def)
next
  assume "parseMediaLines U m ls = Inr urls"
  then show "map (\<lambda>l. resolveUrl U m (trim l))
          (filter (\<lambda>l. trim l \<noteq> [] \<and> \<not> startsWith (trim l) ''#'') ls) = map Inr urls"
    by (rule parseMediaLines_map)
next
  assume u: "U ''http://h/a/b/'' = Some (''http:'', ''h'')"
  have b: "baseUrlOf ''http://h/a/b/'' = ''http://h/a/b/''"
    using baseUrlOf_last_slash [of "[]" "''http://h/a/b''"] by simp
  show "resolveUrl U ''http://h/a/b/'' ''c.ts'' = Inr ''http://h/a/b/c.ts''"
    by (simp add: resolveUrl_def startsWith_def b)
  show "resolveUrl U ''http://h/a/b/'' ''/c.ts'' = Inr ''http://h/c.ts''"
    by (simp add: resolveUrl_def startsWith_def u)
  show "resolveUrl U ''http://h/a/b/'' ''http://other/c.ts'' = Inr ''http://other/c.ts''"
    by (simp add: resolveUrl_def startsWith_def)
qed (simp_all add: resolveUrl_def)

text \<open>
  The rules at the document \<open>http://cdn/p/index.m3u8\<close>, with a URL parser that gives
  the protocol \<open>http:\<close> and the host \<open>h\<close>.
\<close>

theorem resolveUrl_rules_witness:
  "resolveUrl exampleURL ''http://cdn/p/index.m3u8'' ''https://other/seg/a.ts'' = Inr ''https://other/seg/a.ts''
   \<and> resolveUrl exampleURL ''http://cdn/p/index.m3u8'' ''/seg/a.ts'' = Inr ''http://h/seg/a.ts''
   \<and> resolveUrl exampleURL ''http://cdn/p/index.m3u8'' ''a.ts'' = Inr ''http://cdn/p/a.ts''
   \<and> map (\<lambda>l. resolveUrl exampleURL ''http://cdn/p/index.m3u8'' (trim l))
        (filter (\<lambda>l. trim l \<noteq> [] \<and> \<not> startsWith (trim l) ''#'')
           [''#EXTM3U'', '' a.ts '', [], ''/b.ts''])
      = map Inr [''http://cdn/p/a.ts'', ''http://h/b.ts'']
   \<and> resolveUrl exampleURL ''http://h/a/b/'' ''c.ts'' = Inr ''http://h/a/b/c.ts''
   \<and> resolveUrl exampleURL ''http://h/a/b/'' ''/c.ts'' = Inr ''http://h/c.ts''
   \<and> resolveUrl exampleURL ''http://h/a/b/'' ''http://other/c.ts'' = Inr ''http://other/c.ts''"
proof -
  let ?m = "''http://cdn/p/index.m3u8''"
  have p: "parseMediaLines exampleURL ?m [''#EXTM3U'', '' a.ts '', [], ''/b.ts''] =
        Inr [''http://cdn/p/a.ts'', ''http://h/b.ts'']"
    by code_simp
  have u: "exampleURL m = Some (''http:'', ''h'')" for m
    by (simp add: exampleURL_def)
  have h1: "startsWith ''https://other/seg/a.ts'' ''http''"
    by (simp add: startsWith_def)
  have h2: "\<not> startsWith ''/seg/a.ts'' ''http'' \<and> startsWith ''/seg/a.ts'' ''/''
      \<and> exampleURL ?m = Some (''http:'', ''h'')"
    by (simp add: startsWith_def u)
  have h3: "\<not> startsWith ''a.ts'' ''http'' \<and> \<not> startsWith ''a.ts'' ''/''
      \<and> CHR ''/'' \<notin> set ''index.m3u8''"
    by (simp add: startsWith_def)
  have d: "''http://cdn/p'' @ ''/'' @ ''index.m3u8'' = ?m" "''http://cdn/p'' @ ''/'' @ ''a.ts'' = ''http://cdn/p/a.ts''"
    "''http:'' @ ''//'' @ ''h'' @ ''/seg/a.ts'' = ''http://h/seg/a.ts''"
    by simp_all
  have r1: "resolveUrl exampleURL ?m ''https://other/seg/a.ts'' = Inr ''https://other/seg/a.ts''"
    by (rule resolveUrl_rules [THEN conjunct1, THEN mp, OF h1])
  have r2: "resolveUrl exampleURL ?m ''/seg/a.ts'' = Inr ''http://h/seg/a.ts''"
    using resolveUrl_rules [where line = "''/seg/a.ts''" and U = exampleURL and m = ?m
        and protocol = "''http:''" and host = "''h''",
        THEN conjunct2, THEN conjunct1, THEN mp, OF h2]
    unfolding d .
  have r3: "resolveUrl exampleURL ?m ''a.ts'' = Inr ''http://cdn/p/a.ts''"
    using resolveUrl_rules [where line = "''a.ts''" and U = exampleURL and rest = "''index.m3u8''"
        and dir = "''http://cdn/p''",
        THEN conjunct2, THEN conjunct2, THEN conjunct1, THEN mp, OF h3]
    unfolding d .
  have r4: "map (\<lambda>l. resolveUrl exampleURL ?m (trim l))
        (filter (\<lambda>l. trim l \<noteq> [] \<and> \<not> startsWith (trim l) ''#'')
           [''#EXTM3U'', '' a.ts '', [], ''/b.ts''])
      = map Inr [''http://cdn/p/a.ts'', ''http://h/b.ts'']"
    by (rule resolveUrl_rules [THEN conjunct2, THEN conjunct2, THEN conjunct2, THEN conjunct1,
          THEN mp, OF p])
  have r5: "resolveUrl exampleURL ''http://h/a/b/'' ''c.ts'' = Inr ''http://h/a/b/c.ts''
      \<and> resolveUrl exampleURL ''http://h/a/b/'' ''/c.ts'' = Inr ''http://h/c.ts''
      \<and> resolveUrl exampleURL ''http://h/a/b/'' ''http://other/c.ts'' = Inr ''http://other/c.ts''"
    by (rule resolveUrl_rules [THEN conjunct2, THEN conjunct2, THEN conjunct2, THEN conjunct2,
          THEN mp, OF u])
  from r1 r2 r3 r4 r5 show ?thesis by (intro conjI) (elim conjE, assumption)+
qed

text \<open>
  Claim C5, as stated, fails: the absolute URL \<open>ftp://other/c.ts\<close> is not returned
  unchanged (it is put behind the base directory), and the relative path
  \<open>httpdocs/c.ts\<close> is not resolved against the base directory (it is returned as it
  is).
\<close>

theorem resolveUrl_absolute_counterexample:
  "resolveUrl (\<lambda>u. Some (''http:'', ''h'')) ''http://h/a/b/'' ''ftp://other/c.ts''
     = Inr ''http://h/a/b/ftp://other/c.ts''
   \<and> resolveUrl (\<lambda>u. Some (''http:'', ''h'')) ''http://h/a/b/'' ''ftp://other/c.ts''
     \<noteq> Inr ''ftp://other/c.ts''
   \<and> resolveUrl (\<lambda>u. Some (''http:'', ''h'')) ''http://h/a/b/'' ''httpdocs/c.ts''
     = Inr ''httpdocs/c.ts''
   \<and> resolveUrl (\<lambda>u. Some (''http:'', ''h'')) ''http://h/a/b/'' ''httpdocs/c.ts''
     \<noteq> Inr ''http://h/a/b/httpdocs/c.ts''"
  by code_simp

section \<open>The best rendition\<close>



















section \<open>The scheduler keeps its invariants\<close>

text \<open>The four transitions of a worker, in explicit form.\<close>

lemma onResolved_exit:
  assumes "activeTasks s ! w = Fetching i u" and "aborted s \<or> taskQueue s = []"
  shows "onResolved body n w s =
    s\<lparr>tsBuffers := (tsBuffers s)[i := Some (body u)],
      downloadedCount := downloadedCount s + 1,
      progress := progress s @ [(percentage (downloadedCount s + 1) n, downloadedCount s + 1, n)],
      activeTasks := (activeTasks s)[w := Exited]\<rparr>"
  using assms by (auto simp: onResolved_def store_def processTask_def)

lemma onResolved_claim:
  assumes "activeTasks s ! w = Fetching i u" and "\<not> aborted s" and "taskQueue s = (j, v) # q"
  shows "onResolved body n w s =
    s\<lparr>tsBuffers := (tsBuffers s)[i := Some (body u)],
      downloadedCount := downloadedCount s + 1,
      progress := progress s @ [(percentage (downloadedCount s + 1) n, downloadedCount s + 1, n)],
      taskQueue := q,
      activeTasks := (activeTasks s)[w := Fetching j v],
      fetched := fetched s @ [v]\<rparr>"
  using assms by (simp add: onResolved_def store_def processTask_def)

lemma onRejected_exit:
  assumes "activeTasks s ! w = Fetching i u" and "aborted s"
  shows "onRejected w s = s\<lparr>activeTasks := (activeTasks s)[w := Exited]\<rparr>"
  using assms by (simp add: onRejected_def)

lemma onRejected_retry:
  assumes "activeTasks s ! w = Fetching i u" and "\<not> aborted s"
  shows "onRejected w s = s\<lparr>fetched := fetched s @ [u]\<rparr>"
proof -
  have "(activeTasks s)[w := Fetching i u] = activeTasks s"
    using assms(1) by (metis list_update_id)
  with assms show ?thesis
    by (simp add: onRejected_def processTask_def)
qed

text \<open>A callback that throws: the worker returns, or fetches the stored task again.\<close>

lemma onCallbackThrows_exit:
  assumes "activeTasks s ! w = Fetching i u" and "aborted s"
  shows "onCallbackThrows body n w s =
    (store body n i u s)\<lparr>activeTasks := (activeTasks s)[w := Exited]\<rparr>"
  using assms by (simp add: onCallbackThrows_def onRejected_def store_def)

lemma onCallbackThrows_retry:
  assumes "activeTasks s ! w = Fetching i u" and "\<not> aborted s"
  shows "onCallbackThrows body n w s = (store body n i u s)\<lparr>fetched := fetched s @ [u]\<rparr>"
proof -
  have "activeTasks (store body n i u s) ! w = Fetching i u" "\<not> aborted (store body n i u s)"
    using assms by (simp_all add: store_def)
  from onRejected_retry [OF this] assms(1) show ?thesis
    by (simp add: onCallbackThrows_def store_def)
qed

lemma filter_update_None:
  "i < length xs \<Longrightarrow> xs ! i = None \<Longrightarrow>
     length (filter (\<lambda>x. x \<noteq> None) (xs[i := Some b])) = Suc (length (filter (\<lambda>x. x \<noteq> None) xs))"
proof (induction xs arbitrary: i)
  case Nil
  then show ?case by simp
next
  case (Cons x xs)
  then show ?case by (cases i) auto
qed

lemma fetchingAt_update:
  "fetchingAt (ws[w := t]) w' j v =
     (if w' = w then w < length ws \<and> t = Fetching j v else fetchingAt ws w' j v)"
  by (auto simp: fetchingAt_def)

lemma fetchingAt_append:
  "fetchingAt (ws @ [t]) w' j v =
     (if w' = length ws then t = Fetching j v else fetchingAt ws w' j v)"
  by (auto simp: fetchingAt_def nth_append)

lemma fst_in: "(j, v) \<in> S \<Longrightarrow> j \<in> fst ` S"
  by force

text \<open>The invariant of every run.\<close>

lemma slotsOk_D:
  assumes "slotsOk body tsUrls s"
  shows "length (tsBuffers s) = length tsUrls"
    and "\<And>j v. (j, v) \<in> set (taskQueue s) \<Longrightarrow> j < length tsUrls \<and> v = tsUrls ! j"
    and "\<And>w' j v. fetchingAt (activeTasks s) w' j v \<Longrightarrow> j < length tsUrls \<and> v = tsUrls ! j"
    and "\<And>j. j < length tsUrls \<Longrightarrow> tsBuffers s ! j = None \<or> tsBuffers s ! j = Some (body (tsUrls ! j))"
    and "progress s = map (\<lambda>k. (percentage k (length tsUrls), k, length tsUrls)) [1..<Suc (downloadedCount s)]"
  using assms unfolding slotsOk_def by blast+

lemma slotsOk_I:
  assumes "length (tsBuffers s) = length tsUrls"
    and "\<And>j v. (j, v) \<in> set (taskQueue s) \<Longrightarrow> j < length tsUrls \<and> v = tsUrls ! j"
    and "\<And>w' j v. fetchingAt (activeTasks s) w' j v \<Longrightarrow> j < length tsUrls \<and> v = tsUrls ! j"
    and "\<And>j. j < length tsUrls \<Longrightarrow> tsBuffers s ! j = None \<or> tsBuffers s ! j = Some (body (tsUrls ! j))"
    and "progress s = map (\<lambda>k. (percentage k (length tsUrls), k, length tsUrls)) [1..<Suc (downloadedCount s)]"
  shows "slotsOk body tsUrls s"
  unfolding slotsOk_def using assms by blast

lemma slotsOk_store:
  assumes inv: "slotsOk body tsUrls s" and f: "fetchingAt (activeTasks s) w i u"
  shows "slotsOk body tsUrls (store body (length tsUrls) i u s)"
proof (rule slotsOk_I)
  note d = slotsOk_D [OF inv]
  from d(3) [OF f] have i: "i < length tsUrls" "u = tsUrls ! i" by auto
  show "length (tsBuffers (store body (length tsUrls) i u s)) = length tsUrls"
    using d(1) by (simp add: store_def)
  show "j < length tsUrls \<and> v = tsUrls ! j"
    if "(j, v) \<in> set (taskQueue (store body (length tsUrls) i u s))" for j v
    using that d(2) by (simp add: store_def)
  show "j < length tsUrls \<and> v = tsUrls ! j"
    if "fetchingAt (activeTasks (store body (length tsUrls) i u s)) w' j v" for w' j v
    using that d(3) by (simp add: store_def)
  show "tsBuffers (store body (length tsUrls) i u s) ! j = None
      \<or> tsBuffers (store body (length tsUrls) i u s) ! j = Some (body (tsUrls ! j))"
    if "j < length tsUrls" for j
    using d(4) [OF that] d(1) that i by (cases "j = i") (auto simp: store_def)
  show "progress (store body (length tsUrls) i u s) =
      map (\<lambda>k. (percentage k (length tsUrls), k, length tsUrls))
        [1..<Suc (downloadedCount (store body (length tsUrls) i u s))]"
    using d(5) by (simp add: store_def)
qed

lemma slotsOk_exit:
  assumes inv: "slotsOk body tsUrls s"
  shows "slotsOk body tsUrls (s\<lparr>activeTasks := (activeTasks s)[w := Exited]\<rparr>)"
proof (rule slotsOk_I)
  note d = slotsOk_D [OF inv]
  show "j < length tsUrls \<and> v = tsUrls ! j"
    if "fetchingAt (activeTasks (s\<lparr>activeTasks := (activeTasks s)[w := Exited]\<rparr>)) w' j v" for w' j v
    using that d(3) [of w' j v] by (auto simp: fetchingAt_update split: if_splits)
qed (use slotsOk_D [OF inv] in simp_all)

lemma slotsOk_processTask:
  assumes inv: "slotsOk body tsUrls s"
  shows "slotsOk body tsUrls (processTask w s)"
proof (cases "aborted s \<or> taskQueue s = []")
  case True
  then have "processTask w s = s\<lparr>activeTasks := (activeTasks s)[w := Exited]\<rparr>"
    by (auto simp: processTask_def)
  then show ?thesis using slotsOk_exit [OF inv] by simp
next
  case False
  then obtain j v q where q: "taskQueue s = (j, v) # q" and na: "\<not> aborted s"
    by (cases "taskQueue s") auto
  have e: "processTask w s = s\<lparr>taskQueue := q, activeTasks := (activeTasks s)[w := Fetching j v],
      fetched := fetched s @ [v]\<rparr>"
    using q na by (simp add: processTask_def)
  note d = slotsOk_D [OF inv]
  show ?thesis unfolding e
  proof (rule slotsOk_I)
    show "j' < length tsUrls \<and> v' = tsUrls ! j'"
      if "(j', v') \<in> set (taskQueue (s\<lparr>taskQueue := q, activeTasks := (activeTasks s)[w := Fetching j v],
        fetched := fetched s @ [v]\<rparr>))" for j' v'
      using that d(2) [of j' v'] q by simp
    show "j' < length tsUrls \<and> v' = tsUrls ! j'"
      if "fetchingAt (activeTasks (s\<lparr>taskQueue := q, activeTasks := (activeTasks s)[w := Fetching j v],
        fetched := fetched s @ [v]\<rparr>)) w' j' v'" for w' j' v'
      using that d(3) [of w' j' v'] d(2) [of j v] q
      by (auto simp: fetchingAt_update split: if_splits)
  qed (use d in simp_all)
qed

lemma slotsOk_onRejected:
  assumes inv: "slotsOk body tsUrls s" and w: "w < length (activeTasks s)"
  shows "slotsOk body tsUrls (onRejected w s)"
proof (cases "activeTasks s ! w")
  case Exited
  then show ?thesis using inv by (simp add: onRejected_def)
next
  case (Fetching i u)
  with w have f: "fetchingAt (activeTasks s) w i u" by (simp add: fetchingAt_def)
  note d = slotsOk_D [OF inv]
  show ?thesis
  proof (cases "aborted s")
    case True
    then show ?thesis using Fetching slotsOk_exit [OF inv] by (simp add: onRejected_def)
  next
    case False
    have "slotsOk body tsUrls (s\<lparr>fetched := fetched s @ [u]\<rparr>)"
      by (rule slotsOk_I) (use d in simp_all)
    then show ?thesis using onRejected_retry [OF Fetching False] by simp
  qed
qed

lemma slotsOk_step:
  assumes inv: "slotsOk body tsUrls s"
  shows "slotsOk body tsUrls (step body (length tsUrls) s ev)"
proof (cases ev)
  case Abort
  have "slotsOk body tsUrls (s\<lparr>aborted := True\<rparr>)"
    by (rule slotsOk_I) (use slotsOk_D [OF inv] in simp_all)
  then show ?thesis using Abort by simp
next
  case (Rejected w)
  then show ?thesis using inv slotsOk_onRejected [OF inv] by simp
next
  case (Resolved w)
  show ?thesis
  proof (cases "w < length (activeTasks s)")
    case False
    then show ?thesis using inv Resolved by simp
  next
    case True
    show ?thesis
    proof (cases "activeTasks s ! w")
      case Exited
      then show ?thesis using inv Resolved True by (simp add: onResolved_def)
    next
      case (Fetching i u)
      with True have "fetchingAt (activeTasks s) w i u" by (simp add: fetchingAt_def)
      from slotsOk_processTask [OF slotsOk_store [OF inv this]]
      show ?thesis using Resolved True Fetching by (simp add: onResolved_def)
    qed
  qed
next
  case (ResolvedThrows w)
  show ?thesis
  proof (cases "w < length (activeTasks s)")
    case False
    then show ?thesis using inv ResolvedThrows by simp
  next
    case True
    show ?thesis
    proof (cases "activeTasks s ! w")
      case Exited
      then show ?thesis using inv ResolvedThrows True by (simp add: onCallbackThrows_def)
    next
      case (Fetching i u)
      with True have "fetchingAt (activeTasks s) w i u" by (simp add: fetchingAt_def)
      from slotsOk_store [OF inv this]
      have "slotsOk body tsUrls (onRejected w (store body (length tsUrls) i u s))"
        by (rule slotsOk_onRejected) (use True in \<open>simp add: store_def\<close>)
      then show ?thesis using ResolvedThrows True Fetching by (simp add: onCallbackThrows_def)
    qed
  qed
qed

lemma slotsOk_run:
  "slotsOk body tsUrls s \<Longrightarrow> slotsOk body tsUrls (run body (length tsUrls) evs s)"
  unfolding run_def
  by (induction evs arbitrary: s) (simp_all add: slotsOk_step)

text \<open>The invariant of the runs in which the callback returns.\<close>

lemma tasksOk_slotsOk: "tasksOk body tsUrls s \<Longrightarrow> slotsOk body tsUrls s"
  unfolding tasksOk_def slotsOk_def by blast

lemma tasksOk_D:
  assumes "tasksOk body tsUrls s"
  shows "length (tsBuffers s) = length tsUrls"
    and "distinct (map fst (taskQueue s))"
    and "\<And>j v. (j, v) \<in> set (taskQueue s) \<Longrightarrow> j < length tsUrls \<and> v = tsUrls ! j \<and> tsBuffers s ! j = None"
    and "\<And>w' j v. fetchingAt (activeTasks s) w' j v \<Longrightarrow>
         j < length tsUrls \<and> v = tsUrls ! j \<and> tsBuffers s ! j = None \<and> j \<notin> fst ` set (taskQueue s)"
    and "\<And>w' w'' j v v'. fetchingAt (activeTasks s) w' j v \<Longrightarrow> fetchingAt (activeTasks s) w'' j v' \<Longrightarrow> w' = w''"
    and "\<And>j. j < length tsUrls \<Longrightarrow> tsBuffers s ! j = None \<or> tsBuffers s ! j = Some (body (tsUrls ! j))"
    and "downloadedCount s = length (filter (\<lambda>x. x \<noteq> None) (tsBuffers s))"
    and "progress s = map (\<lambda>k. (percentage k (length tsUrls), k, length tsUrls)) [1..<Suc (downloadedCount s)]"
  using assms unfolding tasksOk_def by blast+

lemma tasksOk_I:
  assumes "length (tsBuffers s) = length tsUrls"
    and "distinct (map fst (taskQueue s))"
    and "\<And>j v. (j, v) \<in> set (taskQueue s) \<Longrightarrow> j < length tsUrls \<and> v = tsUrls ! j \<and> tsBuffers s ! j = None"
    and "\<And>w' j v. fetchingAt (activeTasks s) w' j v \<Longrightarrow>
         j < length tsUrls \<and> v = tsUrls ! j \<and> tsBuffers s ! j = None \<and> j \<notin> fst ` set (taskQueue s)"
    and "\<And>w' w'' j v v'. fetchingAt (activeTasks s) w' j v \<Longrightarrow> fetchingAt (activeTasks s) w'' j v' \<Longrightarrow> w' = w''"
    and "\<And>j. j < length tsUrls \<Longrightarrow> tsBuffers s ! j = None \<or> tsBuffers s ! j = Some (body (tsUrls ! j))"
    and "downloadedCount s = length (filter (\<lambda>x. x \<noteq> None) (tsBuffers s))"
    and "progress s = map (\<lambda>k. (percentage k (length tsUrls), k, length tsUrls)) [1..<Suc (downloadedCount s)]"
  shows "tasksOk body tsUrls s"
  unfolding tasksOk_def using assms by blast

text \<open>Storing the buffer of the task a worker holds.\<close>

lemma tasksOk_store:
  assumes inv: "tasksOk body tsUrls s" and f: "fetchingAt (activeTasks s) w i u"
    and B: "tsBuffers s' = (tsBuffers s)[i := Some (body u)]"
    and C: "downloadedCount s' = downloadedCount s + 1"
    and P: "progress s' = progress s @
        [(percentage (downloadedCount s + 1) (length tsUrls), downloadedCount s + 1, length tsUrls)]"
    and Q: "set (taskQueue s') \<subseteq> set (taskQueue s)" "distinct (map fst (taskQueue s'))"
    and W: "\<And>w' j v. fetchingAt (activeTasks s') w' j v \<Longrightarrow>
        (w' \<noteq> w \<and> fetchingAt (activeTasks s) w' j v)
        \<or> (w' = w \<and> (j, v) \<in> set (taskQueue s) \<and> j \<notin> fst ` set (taskQueue s'))"
  shows "tasksOk body tsUrls s'"
proof (rule tasksOk_I)
  note d = tasksOk_D [OF inv]
  from d(4) [OF f] have i: "i < length tsUrls" "u = tsUrls ! i" "tsBuffers s ! i = None"
    "i \<notin> fst ` set (taskQueue s)" by auto
  show "length (tsBuffers s') = length tsUrls" using d(1) B by simp
  show "distinct (map fst (taskQueue s'))" by (rule Q(2))
  show "j < length tsUrls \<and> v = tsUrls ! j \<and> tsBuffers s' ! j = None"
    if "(j, v) \<in> set (taskQueue s')" for j v
  proof -
    from that Q(1) have m: "(j, v) \<in> set (taskQueue s)" by auto
    then have "j \<noteq> i" using i(4) by force
    with d(3) [OF m] B show ?thesis by simp
  qed
  show "j < length tsUrls \<and> v = tsUrls ! j \<and> tsBuffers s' ! j = None \<and> j \<notin> fst ` set (taskQueue s')"
    if "fetchingAt (activeTasks s') w' j v" for w' j v
  proof -
    from W [OF that] show ?thesis
    proof
      assume a: "w' \<noteq> w \<and> fetchingAt (activeTasks s) w' j v"
      then have "j \<noteq> i" using d(5) [of w' j v w u] f by auto
      moreover have "j \<notin> fst ` set (taskQueue s')" using d(4) [of w' j v] a Q(1) by auto
      ultimately show ?thesis using d(4) [of w' j v] a B by simp
    next
      assume a: "w' = w \<and> (j, v) \<in> set (taskQueue s) \<and> j \<notin> fst ` set (taskQueue s')"
      then have "j \<noteq> i" using i(4) by force
      with d(3) [of j v] a B show ?thesis by simp
    qed
  qed
  show "w' = w''"
    if "fetchingAt (activeTasks s') w' j v" and "fetchingAt (activeTasks s') w'' j v'" for w' w'' j v v'
  proof -
    from W [OF that(1)] W [OF that(2)] show ?thesis
      using d(4) [of w' j v] d(4) [of w'' j v'] d(5) [of w' j v w'' v']
      by (auto dest: fst_in)
  qed
  show "tsBuffers s' ! j = None \<or> tsBuffers s' ! j = Some (body (tsUrls ! j))"
    if "j < length tsUrls" for j
    using d(6) [OF that] d(1) that B i by (cases "j = i") auto
  show "downloadedCount s' = length (filter (\<lambda>x. x \<noteq> None) (tsBuffers s'))"
    using filter_update_None [of i "tsBuffers s" "body u"] i d(1) d(7) B C by simp
  show "progress s' = map (\<lambda>k. (percentage k (length tsUrls), k, length tsUrls)) [1..<Suc (downloadedCount s')]"
    using d(8) P C by simp
qed

text \<open>A transition that stores nothing.\<close>

lemma tasksOk_keep:
  assumes inv: "tasksOk body tsUrls s"
    and B: "tsBuffers s' = tsBuffers s"
    and C: "downloadedCount s' = downloadedCount s"
    and P: "progress s' = progress s"
    and Q: "taskQueue s' = taskQueue s"
    and W: "\<And>w' j v. fetchingAt (activeTasks s') w' j v \<Longrightarrow> fetchingAt (activeTasks s) w' j v"
  shows "tasksOk body tsUrls s'"
proof (rule tasksOk_I)
  note d = tasksOk_D [OF inv]
  show "length (tsBuffers s') = length tsUrls" using d(1) B by simp
  show "distinct (map fst (taskQueue s'))" using d(2) Q by simp
  show "j < length tsUrls \<and> v = tsUrls ! j \<and> tsBuffers s' ! j = None"
    if "(j, v) \<in> set (taskQueue s')" for j v
    using d(3) [of j v] that B Q by simp
  show "j < length tsUrls \<and> v = tsUrls ! j \<and> tsBuffers s' ! j = None \<and> j \<notin> fst ` set (taskQueue s')"
    if "fetchingAt (activeTasks s') w' j v" for w' j v
    using d(4) [OF W [OF that]] B Q by simp
  show "w' = w''"
    if "fetchingAt (activeTasks s') w' j v" and "fetchingAt (activeTasks s') w'' j v'" for w' w'' j v v'
    using d(5) [OF W [OF that(1)] W [OF that(2)]] .
  show "tsBuffers s' ! j = None \<or> tsBuffers s' ! j = Some (body (tsUrls ! j))"
    if "j < length tsUrls" for j
    using d(6) [OF that] B by simp
  show "downloadedCount s' = length (filter (\<lambda>x. x \<noteq> None) (tsBuffers s'))"
    using d(7) B C by simp
  show "progress s' = map (\<lambda>k. (percentage k (length tsUrls), k, length tsUrls)) [1..<Suc (downloadedCount s')]"
    using d(8) P C by simp
qed

lemma tasksOk_step:
  assumes inv: "tasksOk body tsUrls s" and ret: "callbackReturns [ev]"
  shows "tasksOk body tsUrls (step body (length tsUrls) s ev)"
proof (cases ev)
  case (ResolvedThrows w)
  then show ?thesis using ret by (simp add: callbackReturns_def)
next
  case Abort
  show ?thesis unfolding Abort
    by (rule tasksOk_keep [OF inv]) simp_all
next
  case (Rejected w)
  show ?thesis
  proof (cases "w < length (activeTasks s)")
    case False
    then show ?thesis using inv Rejected by simp
  next
    case True
    show ?thesis
    proof (cases "activeTasks s ! w")
      case Exited
      then show ?thesis using inv Rejected True by (simp add: onRejected_def)
    next
      case (Fetching i u)
      show ?thesis
      proof (cases "aborted s")
        case True
        have "onRejected w s = s\<lparr>activeTasks := (activeTasks s)[w := Exited]\<rparr>"
          using Fetching True by (rule onRejected_exit)
        moreover have "tasksOk body tsUrls (s\<lparr>activeTasks := (activeTasks s)[w := Exited]\<rparr>)"
          by (rule tasksOk_keep [OF inv]) (auto simp: fetchingAt_update split: if_splits)
        ultimately show ?thesis using Rejected \<open>w < length (activeTasks s)\<close> by simp
      next
        case False
        have "onRejected w s = s\<lparr>fetched := fetched s @ [u]\<rparr>"
          using Fetching False by (rule onRejected_retry)
        moreover have "tasksOk body tsUrls (s\<lparr>fetched := fetched s @ [u]\<rparr>)"
          by (rule tasksOk_keep [OF inv]) simp_all
        ultimately show ?thesis using Rejected \<open>w < length (activeTasks s)\<close> by simp
      qed
    qed
  qed
next
  case (Resolved w)
  show ?thesis
  proof (cases "w < length (activeTasks s)")
    case False
    then show ?thesis using inv Resolved by simp
  next
    case True
    show ?thesis
    proof (cases "activeTasks s ! w")
      case Exited
      then show ?thesis using inv Resolved True by (simp add: onResolved_def)
    next
      case (Fetching i u)
      from True Fetching have f: "fetchingAt (activeTasks s) w i u"
        by (simp add: fetchingAt_def)
      note d = tasksOk_D [OF inv]
      show ?thesis
      proof (cases "aborted s \<or> taskQueue s = []")
        case True
        let ?s' = "s\<lparr>tsBuffers := (tsBuffers s)[i := Some (body u)],
            downloadedCount := downloadedCount s + 1,
            progress := progress s @
              [(percentage (downloadedCount s + 1) (length tsUrls), downloadedCount s + 1, length tsUrls)],
            activeTasks := (activeTasks s)[w := Exited]\<rparr>"
        have "onResolved body (length tsUrls) w s = ?s'"
          using Fetching True by (rule onResolved_exit)
        moreover have "tasksOk body tsUrls ?s'"
          by (rule tasksOk_store [OF inv f])
            (auto simp: fetchingAt_update d(2) split: if_splits)
        ultimately show ?thesis using Resolved \<open>w < length (activeTasks s)\<close> by simp
      next
        case False
        then obtain j v q where q: "taskQueue s = (j, v) # q" and na: "\<not> aborted s"
          by (cases "taskQueue s") auto
        let ?s' = "s\<lparr>tsBuffers := (tsBuffers s)[i := Some (body u)],
            downloadedCount := downloadedCount s + 1,
            progress := progress s @
              [(percentage (downloadedCount s + 1) (length tsUrls), downloadedCount s + 1, length tsUrls)],
            taskQueue := q,
            activeTasks := (activeTasks s)[w := Fetching j v],
            fetched := fetched s @ [v]\<rparr>"
        have "onResolved body (length tsUrls) w s = ?s'"
          using Fetching na q by (rule onResolved_claim)
        moreover have "tasksOk body tsUrls ?s'"
        proof (rule tasksOk_store [OF inv f])
          show "set (taskQueue ?s') \<subseteq> set (taskQueue s)" using q by auto
          show "distinct (map fst (taskQueue ?s'))" using d(2) q by simp
          show "(w' \<noteq> w \<and> fetchingAt (activeTasks s) w' j' v')
              \<or> (w' = w \<and> (j', v') \<in> set (taskQueue s) \<and> j' \<notin> fst ` set (taskQueue ?s'))"
            if "fetchingAt (activeTasks ?s') w' j' v'" for w' j' v'
            using that d(2) q by (auto simp: fetchingAt_update split: if_splits)
        qed simp_all
        ultimately show ?thesis using Resolved \<open>w < length (activeTasks s)\<close> by simp
      qed
    qed
  qed
qed

lemma callbackReturns_Cons:
  "callbackReturns (ev # evs) \<longleftrightarrow> callbackReturns [ev] \<and> callbackReturns evs"
  by (simp add: callbackReturns_def)

lemma tasksOk_run:
  "tasksOk body tsUrls s \<Longrightarrow> callbackReturns evs \<Longrightarrow>
     tasksOk body tsUrls (run body (length tsUrls) evs s)"
  unfolding run_def
proof (induction evs arbitrary: s)
  case Nil
  then show ?case by simp
next
  case (Cons ev evs)
  from Cons.prems(2) have "callbackReturns [ev]" "callbackReturns evs"
    by (simp_all add: callbackReturns_Cons [of ev evs])
  with Cons.IH [of "step body (length tsUrls) s ev"] Cons.prems(1) show ?case
    by (simp add: tasksOk_step)
qed

lemma noLoss_D:
  assumes "noLoss tsUrls s" and "\<not> aborted s"
  shows "\<And>i. i < length tsUrls \<Longrightarrow> tsBuffers s ! i = None \<Longrightarrow>
            i \<in> fst ` set (taskQueue s) \<or> (\<exists>w u. fetchingAt (activeTasks s) w i u)"
    and "Exited \<in> set (activeTasks s) \<Longrightarrow> taskQueue s = []"
  using assms unfolding noLoss_def by blast+

lemma noLoss_step:
  assumes inv: "slotsOk body tsUrls s" and nl: "noLoss tsUrls s"
  shows "noLoss tsUrls (step body (length tsUrls) s ev)"
proof (cases ev)
  case Abort
  show ?thesis unfolding Abort by (simp add: noLoss_def)
next
  case (ResolvedThrows w)
  show ?thesis
  proof (cases "w < length (activeTasks s)")
    case False
    then show ?thesis using nl ResolvedThrows by simp
  next
    case True
    show ?thesis
    proof (cases "activeTasks s ! w")
      case Exited
      then show ?thesis using nl ResolvedThrows True by (simp add: onCallbackThrows_def)
    next
      case (Fetching i u)
      show ?thesis
      proof (cases "aborted s")
        case True
        from onCallbackThrows_exit [OF Fetching True]
        show ?thesis using ResolvedThrows \<open>w < length (activeTasks s)\<close> True
          by (simp add: noLoss_def store_def)
      next
        case na: False
        note l = noLoss_D [OF nl na]
        let ?s' = "(store body (length tsUrls) i u s)\<lparr>fetched := fetched s @ [u]\<rparr>"
        have "noLoss tsUrls ?s'"
          unfolding noLoss_def
        proof (intro impI conjI allI)
          fix j assume j: "j < length tsUrls" "tsBuffers ?s' ! j = None"
          have "tsBuffers s ! j = None"
          proof (cases "j = i")
            case True
            with j slotsOk_D(1) [OF inv] show ?thesis by (simp add: store_def)
          next
            case False
            with j show ?thesis by (simp add: store_def)
          qed
          from l(1) [OF j(1) this]
          show "j \<in> fst ` set (taskQueue ?s') \<or> (\<exists>w u. fetchingAt (activeTasks ?s') w j u)"
            by (simp add: store_def)
        next
          assume "Exited \<in> set (activeTasks ?s')"
          then show "taskQueue ?s' = []" using l(2) by (simp add: store_def)
        qed
        with onCallbackThrows_retry [OF Fetching na]
        show ?thesis using ResolvedThrows \<open>w < length (activeTasks s)\<close> by simp
      qed
    qed
  qed
next
  case (Rejected w)
  show ?thesis
  proof (cases "w < length (activeTasks s)")
    case False
    then show ?thesis using nl Rejected by simp
  next
    case True
    show ?thesis
    proof (cases "activeTasks s ! w")
      case Exited
      then show ?thesis using nl Rejected True by (simp add: onRejected_def)
    next
      case (Fetching i u)
      show ?thesis
      proof (cases "aborted s")
        case True
        have "onRejected w s = s\<lparr>activeTasks := (activeTasks s)[w := Exited]\<rparr>"
          using Fetching True by (rule onRejected_exit)
        then show ?thesis using Rejected \<open>w < length (activeTasks s)\<close> True
          by (simp add: noLoss_def)
      next
        case False
        have "onRejected w s = s\<lparr>fetched := fetched s @ [u]\<rparr>"
          using Fetching False by (rule onRejected_retry)
        then show ?thesis using Rejected \<open>w < length (activeTasks s)\<close> nl
          by (simp add: noLoss_def)
      qed
    qed
  qed
next
  case (Resolved w)
  show ?thesis
  proof (cases "w < length (activeTasks s)")
    case False
    then show ?thesis using nl Resolved by simp
  next
    case True
    show ?thesis
    proof (cases "activeTasks s ! w")
      case Exited
      then show ?thesis using nl Resolved True by (simp add: onResolved_def)
    next
      case (Fetching i u)
      from True Fetching have f: "fetchingAt (activeTasks s) w i u"
        by (simp add: fetchingAt_def)
      note d = slotsOk_D [OF inv]
      from d(3) [OF f] d(1) have i: "i < length (tsBuffers s)" by simp
      show ?thesis
      proof (cases "aborted s")
        case True
        have "onResolved body (length tsUrls) w s =
          s\<lparr>tsBuffers := (tsBuffers s)[i := Some (body u)],
            downloadedCount := downloadedCount s + 1,
            progress := progress s @
              [(percentage (downloadedCount s + 1) (length tsUrls), downloadedCount s + 1, length tsUrls)],
            activeTasks := (activeTasks s)[w := Exited]\<rparr>"
          using Fetching True by (intro onResolved_exit) auto
        then show ?thesis using Resolved \<open>w < length (activeTasks s)\<close> True
          by (simp add: noLoss_def)
      next
        case na: False
        note l = noLoss_D [OF nl na]
        have other: "\<exists>w' u'. w' \<noteq> w \<and> fetchingAt (activeTasks s) w' j u'"
          if "j < length tsUrls" "j \<noteq> i" "tsBuffers s ! j = None" "j \<notin> fst ` set (taskQueue s)" for j
        proof -
          from l(1) [OF that(1,3)] that(4) obtain w' u' where w': "fetchingAt (activeTasks s) w' j u'"
            by auto
          with f that(2) have "w' \<noteq> w" by (auto simp: fetchingAt_def)
          with w' show ?thesis by auto
        qed
        show ?thesis
        proof (cases "taskQueue s")
          case Nil
          let ?s' = "s\<lparr>tsBuffers := (tsBuffers s)[i := Some (body u)],
            downloadedCount := downloadedCount s + 1,
            progress := progress s @
              [(percentage (downloadedCount s + 1) (length tsUrls), downloadedCount s + 1, length tsUrls)],
            activeTasks := (activeTasks s)[w := Exited]\<rparr>"
          have e: "onResolved body (length tsUrls) w s = ?s'"
            using Fetching Nil by (intro onResolved_exit) auto
          have "noLoss tsUrls ?s'"
            unfolding noLoss_def
          proof (intro impI conjI allI)
            fix j assume j: "j < length tsUrls" "tsBuffers ?s' ! j = None"
            then have "j \<noteq> i" using i by auto
            with j have "tsBuffers s ! j = None" by simp
            from other [OF j(1) \<open>j \<noteq> i\<close> this] Nil
            obtain w' u' where "w' \<noteq> w" "fetchingAt (activeTasks s) w' j u'" by auto
            then have "fetchingAt (activeTasks ?s') w' j u'"
              by (simp add: fetchingAt_update)
            then show "j \<in> fst ` set (taskQueue ?s') \<or> (\<exists>w u. fetchingAt (activeTasks ?s') w j u)"
              by blast
          next
            show "taskQueue ?s' = []" using Nil by simp
          qed
          with e show ?thesis using Resolved \<open>w < length (activeTasks s)\<close> by simp
        next
          case (Cons t q)
          obtain j v where t: "t = (j, v)" by (cases t)
          let ?s' = "s\<lparr>tsBuffers := (tsBuffers s)[i := Some (body u)],
            downloadedCount := downloadedCount s + 1,
            progress := progress s @
              [(percentage (downloadedCount s + 1) (length tsUrls), downloadedCount s + 1, length tsUrls)],
            taskQueue := q,
            activeTasks := (activeTasks s)[w := Fetching j v],
            fetched := fetched s @ [v]\<rparr>"
          have e: "onResolved body (length tsUrls) w s = ?s'"
            using Fetching na Cons t by (intro onResolved_claim) auto
          have noex: "Exited \<notin> set (activeTasks s)"
            using l(2) Cons by auto
          have "noLoss tsUrls ?s'"
            unfolding noLoss_def
          proof (intro impI conjI allI)
            fix k assume k: "k < length tsUrls" "tsBuffers ?s' ! k = None"
            then have "k \<noteq> i" using i by auto
            with k have kn: "tsBuffers s ! k = None" by simp
            show "k \<in> fst ` set (taskQueue ?s') \<or> (\<exists>w u. fetchingAt (activeTasks ?s') w k u)"
            proof (cases "k \<in> fst ` set (taskQueue s)")
              case True
              then have "k = j \<or> k \<in> fst ` set q" using Cons t by auto
              then show ?thesis
              proof
                assume "k = j"
                then have "fetchingAt (activeTasks ?s') w k v"
                  using \<open>w < length (activeTasks s)\<close> by (simp add: fetchingAt_update)
                then show ?thesis by blast
              next
                assume "k \<in> fst ` set q"
                then show ?thesis by simp
              qed
            next
              case False
              from other [OF k(1) \<open>k \<noteq> i\<close> kn False]
              obtain w' u' where "w' \<noteq> w" "fetchingAt (activeTasks s) w' k u'" by auto
              then have "fetchingAt (activeTasks ?s') w' k u'"
                by (simp add: fetchingAt_update)
              then show ?thesis by blast
            qed
          next
            assume "Exited \<in> set (activeTasks ?s')"
            then have "Exited \<in> set (activeTasks s)"
              using set_update_subset_insert [of "activeTasks s" w "Fetching j v"] by auto
            with noex show "taskQueue ?s' = []" by simp
          qed
          with e show ?thesis using Resolved \<open>w < length (activeTasks s)\<close> by simp
        qed
      qed
    qed
  qed
qed

lemma invariants_run:
  "slotsOk body tsUrls s \<Longrightarrow> noLoss tsUrls s \<Longrightarrow>
     slotsOk body tsUrls (run body (length tsUrls) evs s)
     \<and> noLoss tsUrls (run body (length tsUrls) evs s)"
  unfolding run_def
  by (induction evs arbitrary: s) (simp_all add: slotsOk_step noLoss_step)

lemma processTask_startedWith:
  assumes "a < length tsUrls"
  shows "processTask (length (activeTasks (startedWith tsUrls a)))
           ((startedWith tsUrls a)\<lparr>activeTasks := activeTasks (startedWith tsUrls a) @ [Exited]\<rparr>)
         = startedWith tsUrls (Suc a)"
proof -
  have q: "drop a (zip [0..<length tsUrls] tsUrls)
      = (a, tsUrls ! a) # drop (Suc a) (zip [0..<length tsUrls] tsUrls)"
    using assms by (simp add: Cons_nth_drop_Suc [symmetric])
  have t: "take (Suc a) tsUrls = take a tsUrls @ [tsUrls ! a]"
    using assms by (simp add: take_Suc_conv_app_nth)
  have u: "(map (\<lambda>i. Fetching i (tsUrls ! i)) [0..<a] @ [Exited])[a := Fetching a (tsUrls ! a)]
      = map (\<lambda>i. Fetching i (tsUrls ! i)) [0..<a] @ [Fetching a (tsUrls ! a)]"
    using list_update_length [of "map (\<lambda>i. Fetching i (tsUrls ! i)) [0..<a]" Exited "[]"
        "Fetching a (tsUrls ! a)"]
    by simp
  show ?thesis
    by (simp add: startedWith_def processTask_def q t u)
qed

lemma spawn_startedWith:
  "a + k \<le> length tsUrls \<Longrightarrow> spawn k (startedWith tsUrls a) = startedWith tsUrls (a + k)"
proof (induction k arbitrary: a)
  case 0
  then show ?case by simp
next
  case (Suc k)
  then have "a < length tsUrls" by simp
  from processTask_startedWith [OF this] Suc.IH [of "Suc a"] Suc.prems
  show ?case by simp
qed

lemma started_eq:
  "started tsUrls maxConcurrent = startedWith tsUrls (workerCount maxConcurrent (length tsUrls))"
proof -
  have "initial tsUrls False = startedWith tsUrls 0"
    by (simp add: initial_def startedWith_def)
  moreover have "0 + workerCount maxConcurrent (length tsUrls) \<le> length tsUrls"
    by (simp add: workerCount_def)
  ultimately show ?thesis
    unfolding started_def using spawn_startedWith [of 0 "workerCount maxConcurrent (length tsUrls)" tsUrls]
    by simp
qed

lemma in_drop_zip:
  "(i, u) \<in> set (drop a (zip [0..<length xs] xs)) \<longleftrightarrow> a \<le> i \<and> i < length xs \<and> u = xs ! i"
proof -
  have "drop a (zip [0..<length xs] xs) = zip [a..<length xs] (drop a xs)"
    by (simp add: drop_zip)
  moreover have "(i, u) \<in> set (zip [a..<length xs] (drop a xs))" if "a \<le> i" "i < length xs" "u = xs ! i"
    unfolding in_set_zip using that by (intro exI [of _ "i - a"]) simp
  ultimately show ?thesis
    by (auto simp: in_set_zip)
qed

lemma fst_drop_zip:
  "map fst (drop a (zip [0..<length xs] xs)) = [a..<length xs]"
  by (simp add: drop_map [symmetric])

lemma fetchingAt_startedWith:
  "a \<le> length tsUrls \<Longrightarrow>
     fetchingAt (activeTasks (startedWith tsUrls a)) w i u \<longleftrightarrow> w < a \<and> i = w \<and> u = tsUrls ! w"
  by (auto simp: fetchingAt_def startedWith_def)

lemma tasksOk_startedWith:
  assumes "a \<le> length tsUrls"
  shows "tasksOk body tsUrls (startedWith tsUrls a)"
proof (rule tasksOk_I)
  show "distinct (map fst (taskQueue (startedWith tsUrls a)))"
    by (simp add: startedWith_def fst_drop_zip)
  show "j < length tsUrls \<and> v = tsUrls ! j \<and> tsBuffers (startedWith tsUrls a) ! j = None"
    if "(j, v) \<in> set (taskQueue (startedWith tsUrls a))" for j v
    using that by (simp add: startedWith_def in_drop_zip)
  show "j < length tsUrls \<and> v = tsUrls ! j \<and> tsBuffers (startedWith tsUrls a) ! j = None
      \<and> j \<notin> fst ` set (taskQueue (startedWith tsUrls a))"
    if "fetchingAt (activeTasks (startedWith tsUrls a)) w' j v" for w' j v
  proof -
    from that assms have j: "j < a" "v = tsUrls ! j"
      by (simp_all add: fetchingAt_startedWith)
    have "set (map fst (taskQueue (startedWith tsUrls a))) = {a..<length tsUrls}"
      by (simp add: startedWith_def fst_drop_zip)
    then have "j \<notin> fst ` set (taskQueue (startedWith tsUrls a))"
      using j(1) by simp
    with j assms show ?thesis by (simp add: startedWith_def)
  qed
  show "w' = w''"
    if "fetchingAt (activeTasks (startedWith tsUrls a)) w' j v"
      and "fetchingAt (activeTasks (startedWith tsUrls a)) w'' j v'" for w' w'' j v v'
    using that assms by (simp add: fetchingAt_startedWith)
qed (simp_all add: startedWith_def)

lemma noLoss_startedWith:
  assumes "a \<le> length tsUrls"
  shows "noLoss tsUrls (startedWith tsUrls a)"
  unfolding noLoss_def
proof (intro impI conjI allI)
  fix i assume i: "i < length tsUrls"
  show "i \<in> fst ` set (taskQueue (startedWith tsUrls a))
      \<or> (\<exists>w u. fetchingAt (activeTasks (startedWith tsUrls a)) w i u)"
  proof (cases "i < a")
    case True
    then have "fetchingAt (activeTasks (startedWith tsUrls a)) i i (tsUrls ! i)"
      using assms by (simp add: fetchingAt_startedWith)
    then show ?thesis by blast
  next
    case False
    have "set (map fst (taskQueue (startedWith tsUrls a))) = {a..<length tsUrls}"
      by (simp add: startedWith_def fst_drop_zip)
    then have "i \<in> fst ` set (taskQueue (startedWith tsUrls a))"
      using False i by simp
    then show ?thesis by blast
  qed
next
  assume "Exited \<in> set (activeTasks (startedWith tsUrls a))"
  then show "taskQueue (startedWith tsUrls a) = []"
    by (auto simp: startedWith_def)
qed

lemma invariants_reached:
  "slotsOk body tsUrls (run body (length tsUrls) evs (started tsUrls maxConcurrent))
   \<and> noLoss tsUrls (run body (length tsUrls) evs (started tsUrls maxConcurrent))"
proof -
  have "workerCount maxConcurrent (length tsUrls) \<le> length tsUrls"
    by (simp add: workerCount_def)
  then show ?thesis
    unfolding started_eq
    by (intro invariants_run tasksOk_slotsOk tasksOk_startedWith noLoss_startedWith)
qed

lemma tasksOk_reached:
  assumes "callbackReturns evs"
  shows "tasksOk body tsUrls (run body (length tsUrls) evs (started tsUrls maxConcurrent))"
proof -
  have "workerCount maxConcurrent (length tsUrls) \<le> length tsUrls"
    by (simp add: workerCount_def)
  then show ?thesis
    unfolding started_eq using assms by (intro tasksOk_run tasksOk_startedWith)
qed

text \<open>The number of workers never changes, and a worker that returned stays so.\<close>

lemma length_processTask: "length (activeTasks (processTask w s)) = length (activeTasks s)"
  by (simp add: processTask_def split: list.splits prod.splits)

lemma length_step: "length (activeTasks (step body n s ev)) = length (activeTasks s)"
  by (cases ev)
    (simp_all add: onResolved_def onCallbackThrows_def onRejected_def store_def length_processTask
      split: worker.splits)

lemma length_run: "length (activeTasks (run body n evs s)) = length (activeTasks s)"
  unfolding run_def
  by (induction evs arbitrary: s) (simp_all add: length_step)

text \<open>A run that ends without abort with every worker returned has filled every slot.\<close>

lemma complete_buffers:
  assumes inv: "slotsOk body tsUrls s" and nl: "noLoss tsUrls s"
    and ex: "allExited s" and na: "\<not> aborted s" and ne: "activeTasks s \<noteq> []"
  shows "tsBuffers s = map (\<lambda>u. Some (body u)) tsUrls"
proof (rule nth_equalityI)
  note d = slotsOk_D [OF inv]
  note l = noLoss_D [OF nl na]
  show len: "length (tsBuffers s) = length (map (\<lambda>u. Some (body u)) tsUrls)"
    using d(1) by simp
  from ex have all: "\<And>t. t \<in> set (activeTasks s) \<Longrightarrow> t = Exited"
    by (simp add: allExited_def list_all_iff)
  from ne obtain t where "t \<in> set (activeTasks s)" by (cases "activeTasks s") auto
  with all have "Exited \<in> set (activeTasks s)" by auto
  then have q: "taskQueue s = []" by (rule l(2))
  have nf: "\<not> fetchingAt (activeTasks s) w i u" for w i u
  proof
    assume "fetchingAt (activeTasks s) w i u"
    then have "w < length (activeTasks s)" and e: "activeTasks s ! w = Fetching i u"
      by (simp_all add: fetchingAt_def)
    then have "activeTasks s ! w \<in> set (activeTasks s)" by (intro nth_mem)
    then have "activeTasks s ! w = Exited" by (rule all)
    with e show False by simp
  qed
  show "tsBuffers s ! i = map (\<lambda>u. Some (body u)) tsUrls ! i" if "i < length (tsBuffers s)" for i
  proof -
    from that d(1) have i: "i < length tsUrls" by simp
    have "tsBuffers s ! i \<noteq> None"
      using l(1) [OF i] q nf by auto
    with d(4) [OF i] i show ?thesis by simp
  qed
qed

section \<open>Assembling\<close>

lemma totalSize_from:
  "foldl (\<lambda>acc slot. case slot of None \<Rightarrow> acc | Some buffer \<Rightarrow> acc + length buffer) a (map Some buffers)
     = a + length (concat buffers)"
  by (induction buffers arbitrary: a) simp_all

lemma totalSize_Some: "totalSize (map Some buffers) = length (concat buffers)"
  by (simp add: totalSize_def totalSize_from)

lemma copyBuffers_Some:
  "offset + length (concat buffers) \<le> length result \<Longrightarrow>
     copyBuffers (map Some buffers) result offset =
       Inr (take offset result @ concat buffers @ drop (offset + length (concat buffers)) result)"
proof (induction buffers arbitrary: result offset)
  case Nil
  then show ?case by simp
next
  case (Cons b buffers)
  let ?r = "take offset result @ b @ drop (offset + length b) result"
  from Cons.prems have fit: "offset + length b \<le> length result" by simp
  then have set: "typedArraySet result b offset = Inr ?r"
    by (simp add: typedArraySet_def)
  from fit have len: "length ?r = length result" by simp
  have tk: "take (offset + length b) ?r = take offset result @ b"
    using fit by simp
  have dr: "drop (offset + length b + length (concat buffers)) ?r
      = drop (offset + length b + length (concat buffers)) result"
    using fit by (simp add: add.commute add.left_commute)
  have "copyBuffers (map Some buffers) ?r (offset + length b) =
      Inr (take (offset + length b) ?r @ concat buffers
           @ drop (offset + length b + length (concat buffers)) ?r)"
    by (rule Cons.IH) (use Cons.prems len in simp)
  with set tk dr show ?case
    by (simp add: add.assoc)
qed

lemma mergeArrayBuffers_Some:
  "mergeArrayBuffers (map Some buffers) = Inr \<lparr>blobBytes = concat buffers, blobType = ''video/mp4''\<rparr>"
  using copyBuffers_Some [of 0 buffers "replicate (length (concat buffers)) 0"]
  by (simp add: mergeArrayBuffers_def totalSize_Some)

lemma copyBuffers_no_hole:
  "copyBuffers buffers result offset = Inr r \<Longrightarrow> None \<notin> set buffers"
proof (induction buffers arbitrary: result offset)
  case Nil
  then show ?case by simp
next
  case (Cons slot buffers)
  then show ?case
    by (cases slot) (auto split: sum.splits)
qed

lemma mergeArrayBuffers_no_hole:
  "mergeArrayBuffers buffers = Inr b \<Longrightarrow> None \<notin> set buffers"
  by (auto simp: mergeArrayBuffers_def split: sum.splits dest: copyBuffers_no_hole)

lemma mergeArrayBuffers_hole:
  "None \<in> set buffers \<Longrightarrow> \<exists>e. mergeArrayBuffers buffers = Inl e"
  using mergeArrayBuffers_no_hole [of buffers] by (cases "mergeArrayBuffers buffers") auto

section \<open>What every run of the scheduler keeps\<close>

lemma reached_slotsOk:
  "slotsOk body tsUrls (run body (length tsUrls) evs (started tsUrls maxConcurrent))"
  using invariants_reached by blast

lemma reached_tasksOk:
  "callbackReturns evs \<Longrightarrow>
     tasksOk body tsUrls (run body (length tsUrls) evs (started tsUrls maxConcurrent))"
  by (rule tasksOk_reached)

lemma filled_le_length: "length (filter P xs) \<le> length xs"
  by simp

lemma reached_count_le:
  assumes "callbackReturns evs"
  shows "downloadedCount (run body (length tsUrls) evs (started tsUrls maxConcurrent)) \<le> length tsUrls"
proof -
  note d = tasksOk_D [OF reached_tasksOk [OF assms, of body tsUrls maxConcurrent]]
  show ?thesis
    unfolding d(7) using d(1) filled_le_length [of "\<lambda>x. x \<noteq> None"
        "tsBuffers (run body (length tsUrls) evs (started tsUrls maxConcurrent))"]
    by simp
qed

lemma started_workers:
  "length (activeTasks (started tsUrls maxConcurrent)) = workerCount maxConcurrent (length tsUrls)"
  by (simp add: started_eq startedWith_def)

lemma reached_complete:
  assumes "allExited (run body (length tsUrls) evs (started tsUrls maxConcurrent))"
    and "\<not> aborted (run body (length tsUrls) evs (started tsUrls maxConcurrent))"
    and "0 < maxConcurrent" and "tsUrls \<noteq> []"
  shows "tsBuffers (run body (length tsUrls) evs (started tsUrls maxConcurrent))
      = map (\<lambda>u. Some (body u)) tsUrls"
proof -
  let ?s = "run body (length tsUrls) evs (started tsUrls maxConcurrent)"
  have "length (activeTasks ?s) = workerCount maxConcurrent (length tsUrls)"
    by (simp add: length_run started_workers)
  moreover have "0 < workerCount maxConcurrent (length tsUrls)"
    using assms(3,4) by (simp add: workerCount_def)
  ultimately have ne: "activeTasks ?s \<noteq> []" by auto
  from invariants_reached [of body tsUrls evs maxConcurrent]
  show ?thesis
    using assms(1,2) ne by (intro complete_buffers) auto
qed

lemma filter_all_Some: "length (filter (\<lambda>x. x \<noteq> None) (map (\<lambda>u. Some (f u)) xs)) = length xs"
  by (induction xs) simp_all

lemma retry_run:
  assumes "fetchingAt (activeTasks s) w i u" and "\<not> aborted s"
  shows "run body n (replicate K (Rejected w)) s = s\<lparr>fetched := fetched s @ replicate K u\<rparr>"
  using assms
proof (induction K arbitrary: s)
  case 0
  then show ?case by (simp add: run_def)
next
  case (Suc K)
  from Suc.prems have w: "w < length (activeTasks s)" and t: "activeTasks s ! w = Fetching i u"
    by (simp_all add: fetchingAt_def)
  have st: "step body n s (Rejected w) = s\<lparr>fetched := fetched s @ [u]\<rparr>"
    using w onRejected_retry [OF t Suc.prems(2)] by simp
  have "run body n (replicate K (Rejected w)) (s\<lparr>fetched := fetched s @ [u]\<rparr>)
      = s\<lparr>fetched := fetched s @ [u]\<rparr>\<lparr>fetched := fetched (s\<lparr>fetched := fetched s @ [u]\<rparr>) @ replicate K u\<rparr>"
    by (rule Suc.IH) (use Suc.prems in simp_all)
  then show ?case
    using st by (simp add: run_def replicate_app_Cons_same)
qed

lemma resolved_store:
  assumes "fetchingAt (activeTasks s) w i u"
  shows "tsBuffers (step body n s (Resolved w)) = (tsBuffers s)[i := Some (body u)]
    \<and> downloadedCount (step body n s (Resolved w)) = downloadedCount s + 1
    \<and> progress (step body n s (Resolved w)) =
        progress s @ [(percentage (downloadedCount s + 1) n, downloadedCount s + 1, n)]"
  using assms
  by (simp add: fetchingAt_def onResolved_def store_def processTask_def split: list.splits prod.splits)


lemma throws_store:
  assumes "fetchingAt (activeTasks s) w i u"
  shows "tsBuffers (step body n s (ResolvedThrows w)) = (tsBuffers s)[i := Some (body u)]
    \<and> downloadedCount (step body n s (ResolvedThrows w)) = downloadedCount s + 1
    \<and> progress (step body n s (ResolvedThrows w)) =
        progress s @ [(percentage (downloadedCount s + 1) n, downloadedCount s + 1, n)]"
  using assms
  by (simp add: fetchingAt_def onCallbackThrows_def onRejected_def store_def processTask_def)

text \<open>
  A callback that throws while the signal is not aborted: the buffer is stored and
  counted, and the same worker fetches the same task again.
\<close>

lemma throws_refetch:
  assumes "fetchingAt (activeTasks s) w i u" and "\<not> aborted s"
  shows "step body n s (ResolvedThrows w) = (store body n i u s)\<lparr>fetched := fetched s @ [u]\<rparr>"
  using assms onCallbackThrows_retry [of s w i u body n] by (simp add: fetchingAt_def)

text \<open>An array of a reached state that can be assembled holds every body, in order.\<close>

lemma reached_merge:
  assumes inv: "slotsOk body tsUrls s" and m: "mergeArrayBuffers (tsBuffers s) = Inr b"
  shows "tsBuffers s = map (\<lambda>u. Some (body u)) tsUrls
    \<and> b = \<lparr>blobBytes = concat (map body tsUrls), blobType = ''video/mp4''\<rparr>"
proof -
  note d = slotsOk_D [OF inv]
  from m have nh: "None \<notin> set (tsBuffers s)" by (rule mergeArrayBuffers_no_hole)
  have eq: "tsBuffers s = map (\<lambda>u. Some (body u)) tsUrls"
  proof (rule nth_equalityI)
    show "length (tsBuffers s) = length (map (\<lambda>u. Some (body u)) tsUrls)"
      using d(1) by simp
    show "tsBuffers s ! i = map (\<lambda>u. Some (body u)) tsUrls ! i" if "i < length (tsBuffers s)" for i
    proof -
      from that have "tsBuffers s ! i \<in> set (tsBuffers s)" by (intro nth_mem)
      have "tsBuffers s ! i \<noteq> None"
      proof
        assume "tsBuffers s ! i = None"
        with \<open>tsBuffers s ! i \<in> set (tsBuffers s)\<close> nh show False by simp
      qed
      with d(4) [of i] that d(1) show ?thesis by simp
    qed
  qed
  have "map (\<lambda>u. Some (body u)) tsUrls = map Some (map body tsUrls)"
    by simp
  with eq have "mergeArrayBuffers (tsBuffers s)
      = Inr \<lparr>blobBytes = concat (map body tsUrls), blobType = ''video/mp4''\<rparr>"
    using mergeArrayBuffers_Some [of "map body tsUrls"] by simp
  with m eq show ?thesis by simp
qed

section \<open>Retry, order and progress\<close>

text \<open>
  With one worker and three segments, let the callback throw at its first call and
  return afterwards.  The first segment is stored and counted, the exception sends the
  worker into the \<open>catch\<close>, the segment is fetched, stored and counted again, and the
  run ends with a count of four for three tasks, reported to the callback as 133
  per cent.  So claim C1 fails where it says that the count never exceeds the number of
  tasks.
\<close>

theorem scheduler_retry_count_counterexample:
  "downloadedCount (run exampleBody (length exampleUrls)
       [ResolvedThrows 0, Resolved 0, Resolved 0, Resolved 0] (started exampleUrls 1)) = 4
   \<and> length exampleUrls = 3
   \<and> \<not> downloadedCount (run exampleBody (length exampleUrls)
       [ResolvedThrows 0, Resolved 0, Resolved 0, Resolved 0] (started exampleUrls 1))
         \<le> length exampleUrls
   \<and> progress (run exampleBody (length exampleUrls)
       [ResolvedThrows 0, Resolved 0, Resolved 0, Resolved 0] (started exampleUrls 1))
       = [(33, 1, 3), (67, 2, 3), (100, 3, 3), (133, 4, 3)]
   \<and> fetched (run exampleBody (length exampleUrls)
       [ResolvedThrows 0, Resolved 0, Resolved 0, Resolved 0] (started exampleUrls 1))
       = [''http://cdn/p/a.ts'', ''http://cdn/p/a.ts'', ''http://cdn/p/b.ts'', ''http://cdn/p/c.ts'']
   \<and> tsBuffers (run exampleBody (length exampleUrls)
       [ResolvedThrows 0, Resolved 0, Resolved 0, Resolved 0] (started exampleUrls 1))
       = [Some [1, 2], Some [3], Some [4, 5, 6]]
   \<and> allExited (run exampleBody (length exampleUrls)
       [ResolvedThrows 0, Resolved 0, Resolved 0, Resolved 0] (started exampleUrls 1))"
  by code_simp

text \<open>
  Claim C1, amended.  In every state \<open>s\<close> the scheduler reaches, whatever the events
  were, a slot is empty or holds the body of its own task, and an array that can be
  assembled gives the bodies of the tasks, each once, in the order of the playlist.
  When worker \<open>w\<close> awaits task \<open>i\<close> and the signal is not aborted, a rejected fetch puts
  the task at the front of the queue and lets the worker go on from there; \<open>K\<close>
  rejections in a row, for any \<open>K\<close>, leave the state as it was but for \<open>K\<close> more fetches
  of the same locator; and the fulfilment that follows stores the body in slot \<open>i\<close>
  and adds one to the count.  When all workers have returned without abort (and there
  was a worker), every slot holds the body of its task.

  As long as every call of the callback has returned, the count is the number of
  filled slots and so at most the number of tasks, the slot of a task that is awaited
  is empty, and the count is the number of tasks when all workers have returned without
  abort.
\<close>

theorem scheduler_retry:
  "let s = run body (length tsUrls) evs (started tsUrls maxConcurrent) in
     (\<forall>j < length tsUrls. tsBuffers s ! j = None \<or> tsBuffers s ! j = Some (body (tsUrls ! j)))
     \<and> (\<forall>b. mergeArrayBuffers (tsBuffers s) = Inr b \<longrightarrow> blobBytes b = concat (map body tsUrls))
     \<and> (fetchingAt (activeTasks s) w i u \<and> \<not> aborted s \<longrightarrow>
          onRejected w s = processTask w (s\<lparr>taskQueue := (i, u) # taskQueue s\<rparr>)
          \<and> run body (length tsUrls) (replicate K (Rejected w)) s
              = s\<lparr>fetched := fetched s @ replicate K u\<rparr>
          \<and> i < length tsUrls \<and> u = tsUrls ! i
          \<and> (let s' = run body (length tsUrls) (replicate K (Rejected w) @ [Resolved w]) s in
                tsBuffers s' = (tsBuffers s)[i := Some (body u)]
                \<and> downloadedCount s' = downloadedCount s + 1))
     \<and> (allExited s \<and> \<not> aborted s \<and> 0 < maxConcurrent \<and> tsUrls \<noteq> [] \<longrightarrow>
          tsBuffers s = map (\<lambda>u. Some (body u)) tsUrls)
     \<and> (callbackReturns evs \<longrightarrow>
          downloadedCount s = length (filter (\<lambda>slot. slot \<noteq> None) (tsBuffers s))
          \<and> downloadedCount s \<le> length tsUrls
          \<and> (fetchingAt (activeTasks s) w i u \<longrightarrow> tsBuffers s ! i = None)
          \<and> (allExited s \<and> \<not> aborted s \<and> 0 < maxConcurrent \<and> tsUrls \<noteq> [] \<longrightarrow>
                downloadedCount s = length tsUrls))"
proof -
  define s where "s = run body (length tsUrls) evs (started tsUrls maxConcurrent)"
  have inv: "slotsOk body tsUrls s"
    unfolding s_def by (rule reached_slotsOk)
  note d = slotsOk_D [OF inv]
  have c1: "\<forall>j < length tsUrls. tsBuffers s ! j = None \<or> tsBuffers s ! j = Some (body (tsUrls ! j))"
    using d(4) by blast
  have c2: "\<forall>b. mergeArrayBuffers (tsBuffers s) = Inr b \<longrightarrow> blobBytes b = concat (map body tsUrls)"
    using reached_merge [OF inv] by auto
  have c3: "onRejected w s = processTask w (s\<lparr>taskQueue := (i, u) # taskQueue s\<rparr>)
      \<and> run body (length tsUrls) (replicate K (Rejected w)) s
          = s\<lparr>fetched := fetched s @ replicate K u\<rparr>
      \<and> i < length tsUrls \<and> u = tsUrls ! i
      \<and> (let s' = run body (length tsUrls) (replicate K (Rejected w) @ [Resolved w]) s in
            tsBuffers s' = (tsBuffers s)[i := Some (body u)]
            \<and> downloadedCount s' = downloadedCount s + 1)"
    if f: "fetchingAt (activeTasks s) w i u" and na: "\<not> aborted s"
  proof -
    have a: "onRejected w s = processTask w (s\<lparr>taskQueue := (i, u) # taskQueue s\<rparr>)"
      using f na by (simp add: onRejected_def fetchingAt_def)
    have b: "run body (length tsUrls) (replicate K (Rejected w)) s
        = s\<lparr>fetched := fetched s @ replicate K u\<rparr>"
      using f na by (rule retry_run)
    have f': "fetchingAt (activeTasks (s\<lparr>fetched := fetched s @ replicate K u\<rparr>)) w i u"
      using f by simp
    have "run body (length tsUrls) (replicate K (Rejected w) @ [Resolved w]) s
        = step body (length tsUrls) (s\<lparr>fetched := fetched s @ replicate K u\<rparr>) (Resolved w)"
      using b by (simp add: run_def)
    with resolved_store [OF f', of body "length tsUrls"]
    have c: "let s' = run body (length tsUrls) (replicate K (Rejected w) @ [Resolved w]) s in
        tsBuffers s' = (tsBuffers s)[i := Some (body u)]
        \<and> downloadedCount s' = downloadedCount s + 1"
      by (simp add: Let_def)
    from a b c d(3) [OF f] show ?thesis by blast
  qed
  have c4: "tsBuffers s = map (\<lambda>u. Some (body u)) tsUrls"
    if "allExited s \<and> \<not> aborted s \<and> 0 < maxConcurrent \<and> tsUrls \<noteq> []"
    unfolding s_def using that [unfolded s_def] by (intro reached_complete) auto
  have c5: "downloadedCount s = length (filter (\<lambda>slot. slot \<noteq> None) (tsBuffers s))
      \<and> downloadedCount s \<le> length tsUrls
      \<and> (fetchingAt (activeTasks s) w i u \<longrightarrow> tsBuffers s ! i = None)
      \<and> (allExited s \<and> \<not> aborted s \<and> 0 < maxConcurrent \<and> tsUrls \<noteq> [] \<longrightarrow>
            downloadedCount s = length tsUrls)"
    if ret: "callbackReturns evs"
  proof -
    have t: "tasksOk body tsUrls s"
      unfolding s_def using ret by (rule reached_tasksOk)
    note e = tasksOk_D [OF t]
    have le: "downloadedCount s \<le> length tsUrls"
      unfolding s_def using ret by (rule reached_count_le)
    have n: "fetchingAt (activeTasks s) w i u \<longrightarrow> tsBuffers s ! i = None"
      using e(4) [of w i u] by blast
    have full: "downloadedCount s = length tsUrls"
      if "allExited s \<and> \<not> aborted s \<and> 0 < maxConcurrent \<and> tsUrls \<noteq> []"
      using c4 [OF that] e(7) by (simp add: filter_all_Some)
    from e(7) le n full show ?thesis by blast
  qed
  from c1 c2 c3 c4 c5 show ?thesis
    unfolding s_def [symmetric] Let_def by blast
qed

text \<open>
  Three segments and two workers.  The first fetch of segment 0 is rejected twice and
  then fulfilled; the run \<open>[Rejected 0, Rejected 0, Resolved 1, Resolved 0, Resolved 1]\<close>
  ends with the three bodies in their slots, each once in the assembled bytes, and a
  count of three.
\<close>

theorem scheduler_retry_witness:
  "run exampleBody (length exampleUrls) (replicate 2 (Rejected 0)) (started exampleUrls 2)
     = (started exampleUrls 2)
         \<lparr>fetched := fetched (started exampleUrls 2) @ replicate 2 ''http://cdn/p/a.ts''\<rparr>
   \<and> tsBuffers (run exampleBody (length exampleUrls) (replicate 2 (Rejected 0) @ [Resolved 0])
        (started exampleUrls 2)) = [Some [1, 2], None, None]
   \<and> tsBuffers (run exampleBody (length exampleUrls)
        [Rejected 0, Rejected 0, Resolved 1, Resolved 0, Resolved 1] (started exampleUrls 2))
      = [Some [1, 2], Some [3], Some [4, 5, 6]]
   \<and> downloadedCount (run exampleBody (length exampleUrls)
        [Rejected 0, Rejected 0, Resolved 1, Resolved 0, Resolved 1] (started exampleUrls 2)) = 3
   \<and> tsBuffers (started exampleUrls 2) ! 0 = None
   \<and> tsBuffers (run exampleBody (length exampleUrls) [Resolved 1] (started exampleUrls 2)) ! 1
      = Some (exampleBody (exampleUrls ! 1))
   \<and> [1, 2, 3, 4, 5, 6] = concat (map exampleBody exampleUrls)"
proof -
  let ?evs = "[Rejected 0, Rejected 0, Resolved 1, Resolved 0, Resolved 1]"
  let ?s0 = "started exampleUrls 2"
  let ?n = "length exampleUrls"
  have r0: "run exampleBody ?n [] ?s0 = ?s0"
    by (simp add: run_def)
  have f: "fetchingAt (activeTasks ?s0) 0 0 ''http://cdn/p/a.ts''"
    by code_simp
  have na: "\<not> aborted ?s0"
    by code_simp
  have fna: "fetchingAt (activeTasks ?s0) 0 0 ''http://cdn/p/a.ts'' \<and> \<not> aborted ?s0"
    using f na by simp
  have b0: "(tsBuffers ?s0)[0 := Some (exampleBody ''http://cdn/p/a.ts'')]
      = [Some [1, 2], None, None]"
    by code_simp
  note t1 = scheduler_retry [where tsUrls = exampleUrls and body = exampleBody and evs = "[]"
      and maxConcurrent = 2 and w = 0 and i = 0 and u = "''http://cdn/p/a.ts''" and K = 2,
      unfolded Let_def r0]
  note k1 = t1 [THEN conjunct2, THEN conjunct2, THEN conjunct1, THEN mp, OF fna]
  have p1: "run exampleBody ?n (replicate 2 (Rejected 0)) ?s0
     = ?s0\<lparr>fetched := fetched ?s0 @ replicate 2 ''http://cdn/p/a.ts''\<rparr>"
    by (rule k1 [THEN conjunct2, THEN conjunct1])
  have "tsBuffers (run exampleBody ?n (replicate 2 (Rejected 0) @ [Resolved 0]) ?s0)
      = (tsBuffers ?s0)[0 := Some (exampleBody ''http://cdn/p/a.ts'')]"
    by (rule k1 [THEN conjunct2, THEN conjunct2, THEN conjunct2, THEN conjunct2, THEN conjunct1])
  then have p2: "tsBuffers (run exampleBody ?n (replicate 2 (Rejected 0) @ [Resolved 0]) ?s0)
      = [Some [1, 2], None, None]"
    unfolding b0 .
  have cr0: "callbackReturns []" by (simp add: callbackReturns_def)
  have p5: "tsBuffers ?s0 ! 0 = None"
    by (rule t1 [THEN conjunct2, THEN conjunct2, THEN conjunct2, THEN conjunct2, THEN mp, OF cr0,
          THEN conjunct2, THEN conjunct2, THEN conjunct1, THEN mp, OF f])
  have ex: "allExited (run exampleBody ?n ?evs ?s0)"
    by code_simp
  have na': "\<not> aborted (run exampleBody ?n ?evs ?s0)"
    by code_simp
  have ne: "exampleUrls \<noteq> []"
    by (simp add: exampleUrls_def)
  have h: "allExited (run exampleBody ?n ?evs ?s0) \<and> \<not> aborted (run exampleBody ?n ?evs ?s0)
      \<and> (0::int) < 2 \<and> exampleUrls \<noteq> []"
    using ex na' ne by simp
  have cr: "callbackReturns ?evs" by (simp add: callbackReturns_def)
  have m: "map (\<lambda>u. Some (exampleBody u)) exampleUrls = [Some [1, 2], Some [3], Some [4, 5, 6]]"
    by code_simp
  have l: "length exampleUrls = 3"
    by (simp add: exampleUrls_def)
  note t2 = scheduler_retry [where tsUrls = exampleUrls and body = exampleBody and evs = ?evs
      and maxConcurrent = 2, unfolded Let_def]
  have "tsBuffers (run exampleBody ?n ?evs ?s0) = map (\<lambda>u. Some (exampleBody u)) exampleUrls"
    by (rule t2 [THEN conjunct2, THEN conjunct2, THEN conjunct2, THEN conjunct1, THEN mp, OF h])
  then have p3: "tsBuffers (run exampleBody ?n ?evs ?s0) = [Some [1, 2], Some [3], Some [4, 5, 6]]"
    unfolding m .
  have "downloadedCount (run exampleBody ?n ?evs ?s0) = length exampleUrls"
    by (rule t2 [THEN conjunct2, THEN conjunct2, THEN conjunct2, THEN conjunct2, THEN mp, OF cr,
          THEN conjunct2, THEN conjunct2, THEN conjunct2, THEN mp, OF h])
  then have p4: "downloadedCount (run exampleBody ?n ?evs ?s0) = 3"
    unfolding l .
  have l1: "(1::nat) < length exampleUrls" unfolding l by simp
  have s1: "tsBuffers (run exampleBody ?n [Resolved 1] ?s0) ! 1 \<noteq> None"
    by code_simp
  note t3 = scheduler_retry [where tsUrls = exampleUrls and body = exampleBody
      and evs = "[Resolved 1]" and maxConcurrent = 2, unfolded Let_def]
  have "tsBuffers (run exampleBody ?n [Resolved 1] ?s0) ! 1 = None
      \<or> tsBuffers (run exampleBody ?n [Resolved 1] ?s0) ! 1 = Some (exampleBody (exampleUrls ! 1))"
    by (rule t3 [THEN conjunct1, THEN spec, THEN mp, OF l1])
  with s1 have p6: "tsBuffers (run exampleBody ?n [Resolved 1] ?s0) ! 1
      = Some (exampleBody (exampleUrls ! 1))"
    by (elim disjE) simp_all
  have mg: "mergeArrayBuffers (tsBuffers (run exampleBody ?n ?evs ?s0))
      = Inr \<lparr>blobBytes = [1, 2, 3, 4, 5, 6], blobType = ''video/mp4''\<rparr>"
    by code_simp
  have "blobBytes \<lparr>blobBytes = [1, 2, 3, 4, 5, 6], blobType = ''video/mp4''\<rparr>
      = concat (map exampleBody exampleUrls)"
    by (rule t2 [THEN conjunct2, THEN conjunct1, THEN spec, THEN mp, OF mg])
  then have p7: "[1, 2, 3, 4, 5, 6] = concat (map exampleBody exampleUrls)"
    by simp
  from p1 p2 p3 p4 p5 p6 p7 show ?thesis by (intro conjI)
qed

text \<open>
  Claim C3.  For every list of buffers, \<open>mergeArrayBuffers\<close> gives a blob of type
  \<open>video/mp4\<close> whose bytes are the buffers one after the other in the order of the
  array, as many bytes as the buffers have together.  The array \<open>downloadVideo\<close> hands
  over does not depend on the order of completion: in every state the scheduler
  reaches, a slot is empty or holds the body of the task with that index; whenever the
  assembly of the array succeeds, its bytes are the bodies in the order of the
  playlist; and it succeeds once all workers have returned without abort.
\<close>

theorem mergeArrayBuffers_concat:
  "mergeArrayBuffers (map Some buffers)
     = Inr \<lparr>blobBytes = concat buffers, blobType = ''video/mp4''\<rparr>
   \<and> length (concat buffers) = sum_list (map length buffers)
   \<and> (let s = run body (length tsUrls) evs (started tsUrls maxConcurrent) in
        (\<forall>j < length tsUrls. tsBuffers s ! j = None \<or> tsBuffers s ! j = Some (body (tsUrls ! j)))
        \<and> (\<forall>b. mergeArrayBuffers (tsBuffers s) = Inr b \<longrightarrow>
              b = \<lparr>blobBytes = concat (map body tsUrls), blobType = ''video/mp4''\<rparr>)
        \<and> (allExited s \<and> \<not> aborted s \<and> 0 < maxConcurrent \<and> tsUrls \<noteq> [] \<longrightarrow>
              mergeArrayBuffers (tsBuffers s)
                = Inr \<lparr>blobBytes = concat (map body tsUrls), blobType = ''video/mp4''\<rparr>))"
proof -
  define s where "s = run body (length tsUrls) evs (started tsUrls maxConcurrent)"
  have inv: "slotsOk body tsUrls s"
    unfolding s_def by (rule reached_slotsOk)
  note d = slotsOk_D [OF inv]
  have a: "mergeArrayBuffers (map Some buffers)
     = Inr \<lparr>blobBytes = concat buffers, blobType = ''video/mp4''\<rparr>"
    by (rule mergeArrayBuffers_Some)
  have b: "length (concat buffers) = sum_list (map length buffers)"
    by (rule length_concat)
  have c: "\<forall>j < length tsUrls. tsBuffers s ! j = None \<or> tsBuffers s ! j = Some (body (tsUrls ! j))"
    using d(4) by blast
  have e: "\<forall>b. mergeArrayBuffers (tsBuffers s) = Inr b \<longrightarrow>
      b = \<lparr>blobBytes = concat (map body tsUrls), blobType = ''video/mp4''\<rparr>"
    using reached_merge [OF inv] by blast
  have f: "mergeArrayBuffers (tsBuffers s)
      = Inr \<lparr>blobBytes = concat (map body tsUrls), blobType = ''video/mp4''\<rparr>"
    if "allExited s \<and> \<not> aborted s \<and> 0 < maxConcurrent \<and> tsUrls \<noteq> []"
  proof -
    have "tsBuffers s = map (\<lambda>u. Some (body u)) tsUrls"
      unfolding s_def using that [unfolded s_def] by (intro reached_complete) auto
    then have "tsBuffers s = map Some (map body tsUrls)" by simp
    then show ?thesis using mergeArrayBuffers_Some [of "map body tsUrls"] by simp
  qed
  from a b c e f show ?thesis
    unfolding s_def [symmetric] Let_def by blast
qed

text \<open>
  Two orders of completion of the three segments, \<open>[Resolved 1, Resolved 0, Resolved 1]\<close>
  and \<open>[Resolved 0, Resolved 0, Resolved 1]\<close>, give the same six bytes.
\<close>

theorem mergeArrayBuffers_concat_witness:
  "mergeArrayBuffers (tsBuffers (run exampleBody (length exampleUrls)
       [Resolved 1, Resolved 0, Resolved 1] (started exampleUrls 2)))
     = Inr \<lparr>blobBytes = [1, 2, 3, 4, 5, 6], blobType = ''video/mp4''\<rparr>
   \<and> mergeArrayBuffers (tsBuffers (run exampleBody (length exampleUrls)
       [Resolved 0, Resolved 0, Resolved 1] (started exampleUrls 2)))
     = Inr \<lparr>blobBytes = [1, 2, 3, 4, 5, 6], blobType = ''video/mp4''\<rparr>
   \<and> tsBuffers (run exampleBody (length exampleUrls) [Resolved 1] (started exampleUrls 2)) ! 1
     = Some (exampleBody (exampleUrls ! 1))
   \<and> \<lparr>blobBytes = [1, 2, 3, 4, 5, 6], blobType = ''video/mp4''\<rparr>
     = \<lparr>blobBytes = concat (map exampleBody exampleUrls), blobType = ''video/mp4''\<rparr>"
proof -
  let ?e1 = "[Resolved 1, Resolved 0, Resolved 1]"
  let ?e2 = "[Resolved 0, Resolved 0, Resolved 1]"
  let ?e3 = "[Resolved 0, Resolved 0, Abort, Resolved 1]"
  have x1: "allExited (run exampleBody (length exampleUrls) ?e1 (started exampleUrls 2))"
    by code_simp
  have n1: "\<not> aborted (run exampleBody (length exampleUrls) ?e1 (started exampleUrls 2))"
    by code_simp
  have x2: "allExited (run exampleBody (length exampleUrls) ?e2 (started exampleUrls 2))"
    by code_simp
  have n2: "\<not> aborted (run exampleBody (length exampleUrls) ?e2 (started exampleUrls 2))"
    by code_simp
  have ne: "exampleUrls \<noteq> []"
    by (simp add: exampleUrls_def)
  have c: "concat (map exampleBody exampleUrls) = [1, 2, 3, 4, 5, 6]"
    by code_simp
  have l: "(1::nat) < length exampleUrls"
    by (simp add: exampleUrls_def)
  have s1: "tsBuffers (run exampleBody (length exampleUrls) [Resolved 1] (started exampleUrls 2)) ! 1 \<noteq> None"
    by code_simp
  have m3: "mergeArrayBuffers (tsBuffers (run exampleBody (length exampleUrls) ?e3
      (started exampleUrls 2))) = Inr \<lparr>blobBytes = [1, 2, 3, 4, 5, 6], blobType = ''video/mp4''\<rparr>"
    by code_simp
  note t1 = mergeArrayBuffers_concat [of "[]" exampleBody exampleUrls ?e1 2, unfolded Let_def]
  note t2 = mergeArrayBuffers_concat [of "[]" exampleBody exampleUrls ?e2 2, unfolded Let_def]
  note t3 = mergeArrayBuffers_concat [of "[]" exampleBody exampleUrls "[Resolved 1]" 2, unfolded Let_def]
  note t4 = mergeArrayBuffers_concat [of "[]" exampleBody exampleUrls ?e3 2, unfolded Let_def]
  have h1: "allExited (run exampleBody (length exampleUrls) ?e1 (started exampleUrls 2))
      \<and> \<not> aborted (run exampleBody (length exampleUrls) ?e1 (started exampleUrls 2))
      \<and> (0::int) < 2 \<and> exampleUrls \<noteq> []"
    using x1 n1 ne by simp
  have h2: "allExited (run exampleBody (length exampleUrls) ?e2 (started exampleUrls 2))
      \<and> \<not> aborted (run exampleBody (length exampleUrls) ?e2 (started exampleUrls 2))
      \<and> (0::int) < 2 \<and> exampleUrls \<noteq> []"
    using x2 n2 ne by simp
  have p1: "mergeArrayBuffers (tsBuffers (run exampleBody (length exampleUrls) ?e1
      (started exampleUrls 2)))
     = Inr \<lparr>blobBytes = concat (map exampleBody exampleUrls), blobType = ''video/mp4''\<rparr>"
    by (rule t1 [THEN conjunct2, THEN conjunct2, THEN conjunct2, THEN conjunct2, THEN mp, OF h1])
  have p2: "mergeArrayBuffers (tsBuffers (run exampleBody (length exampleUrls) ?e2
      (started exampleUrls 2)))
     = Inr \<lparr>blobBytes = concat (map exampleBody exampleUrls), blobType = ''video/mp4''\<rparr>"
    by (rule t2 [THEN conjunct2, THEN conjunct2, THEN conjunct2, THEN conjunct2, THEN mp, OF h2])
  have "tsBuffers (run exampleBody (length exampleUrls) [Resolved 1] (started exampleUrls 2)) ! 1 = None
      \<or> tsBuffers (run exampleBody (length exampleUrls) [Resolved 1] (started exampleUrls 2)) ! 1
        = Some (exampleBody (exampleUrls ! 1))"
    by (rule t3 [THEN conjunct2, THEN conjunct2, THEN conjunct1, THEN spec, THEN mp, OF l])
  with s1 have p3: "tsBuffers (run exampleBody (length exampleUrls) [Resolved 1]
      (started exampleUrls 2)) ! 1 = Some (exampleBody (exampleUrls ! 1))"
    by (elim disjE) simp_all
  have p4: "\<lparr>blobBytes = [1, 2, 3, 4, 5, 6], blobType = ''video/mp4''\<rparr>
     = \<lparr>blobBytes = concat (map exampleBody exampleUrls), blobType = ''video/mp4''\<rparr>"
    by (rule t4 [THEN conjunct2, THEN conjunct2, THEN conjunct2, THEN conjunct1, THEN spec,
          THEN mp, OF m3])
  from p1 p2 p3 p4 show ?thesis unfolding c by (intro conjI)
qed

lemma toDouble_one: "toDouble 1 = 1"
  by code_simp

lemma toDouble_hundred: "toDouble 100 = 100"
  by code_simp

lemma percentage_all: "0 < n \<Longrightarrow> percentage n n = 100"
proof -
  assume "0 < n"
  then have "(of_nat n :: rat) / of_nat n = 1" by simp
  then have "fmul (fdiv (of_nat n) (of_nat n)) 100 = 100"
    by (simp add: fdiv_def fmul_def toDouble_one toDouble_hundred)
  moreover have "Math_round 100 = 100" by code_simp
  ultimately show ?thesis by (simp add: percentage_def)
qed

lemma step_rejected_keeps:
  "downloadedCount (step body n s (Rejected w)) = downloadedCount s
   \<and> progress (step body n s (Rejected w)) = progress s"
  by (simp add: onRejected_def processTask_def split: worker.splits list.splits prod.splits)

lemma step_resolved_idle:
  "\<not> (\<exists>i u. fetchingAt (activeTasks s) w i u) \<Longrightarrow>
     step body n s (Resolved w) = s \<and> step body n s (ResolvedThrows w) = s"
  by (cases "activeTasks s ! w") (auto simp: fetchingAt_def onResolved_def onCallbackThrows_def)

text \<open>
  The percentage is computed on doubles.  With 40 tasks and one worker, the 23rd call of
  the callback receives 57: the quotient \<open>0.575\<close> times 100 is the double
  \<open>57.49999999999999\<close>.  The exact value of \<open>23 / 40 * 100\<close> is 57.5, which rounds to
  58.  So claim C8 fails where it gives the percentage as \<open>round(completedCount /
  totalCount * 100)\<close>.
\<close>

theorem progress_percentage_counterexample:
  "last (progress (run exampleBody 40 (replicate 23 (Resolved 0))
      (started (replicate 40 ''http://cdn/p/a.ts'') 1))) = (57, 23, 40)
   \<and> specPercentage 23 40 = 58
   \<and> round (23 / 40 * 100 :: rat) = 58
   \<and> percentage 23 40 \<noteq> specPercentage 23 40"
  by code_simp

text \<open>
  Claim C8, amended.  In every state the scheduler reaches, the calls of the progress
  callback so far are, in order, \<open>(percentage k n, k, n)\<close> for \<open>k\<close> from 1 to the
  completed count, where \<open>n\<close> is the number of tasks.  A fulfilled fetch of a worker adds
  one to the count and calls the callback once, with the new count, whether the
  callback returns or throws; a fulfilment for a worker that awaits nothing, a
  rejection and an abort change neither the count nor the calls.

  The percentage \<open>percentage k n\<close> is \<open>Math.round((k / n) * 100)\<close> on doubles.  For a
  count below \<open>2 ^ 43\<close> it is the exact value of \<open>k / n * 100\<close> rounded to the nearest
  integer, unless that value lies halfway between two integers: then it is the value
  rounded upwards or one less, and one less at 23 of 40.  The call with the count \<open>n\<close>
  reports 100.
\<close>

theorem progress_percentage:
  "let n = length tsUrls; s = run body n evs (started tsUrls maxConcurrent) in
     progress s = map (\<lambda>k. (percentage k n, k, n)) [1..<Suc (downloadedCount s)]
     \<and> (fetchingAt (activeTasks s) w i u \<longrightarrow>
          downloadedCount (step body n s (Resolved w)) = downloadedCount s + 1
          \<and> progress (step body n s (Resolved w)) =
              progress s @ [(percentage (downloadedCount s + 1) n, downloadedCount s + 1, n)]
          \<and> downloadedCount (step body n s (ResolvedThrows w)) = downloadedCount s + 1
          \<and> progress (step body n s (ResolvedThrows w)) =
              progress s @ [(percentage (downloadedCount s + 1) n, downloadedCount s + 1, n)])
     \<and> (\<not> (\<exists>i u. fetchingAt (activeTasks s) w i u) \<longrightarrow>
          step body n s (Resolved w) = s \<and> step body n s (ResolvedThrows w) = s)
     \<and> downloadedCount (step body n s (Rejected w)) = downloadedCount s
     \<and> progress (step body n s (Rejected w)) = progress s
     \<and> downloadedCount (step body n s Abort) = downloadedCount s
     \<and> progress (step body n s Abort) = progress s
     \<and> (0 < n \<and> k < 2 ^ 43 \<longrightarrow>
          specPercentage k n - 1 \<le> percentage k n \<and> percentage k n \<le> specPercentage k n
          \<and> (frac (of_nat k / of_nat n * 100 :: rat) \<noteq> 1 / 2 \<longrightarrow>
                percentage k n = specPercentage k n))
     \<and> percentage 23 40 = specPercentage 23 40 - 1
     \<and> (0 < n \<longrightarrow> percentage n n = 100)"
proof -
  define s where "s = run body (length tsUrls) evs (started tsUrls maxConcurrent)"
  have inv: "slotsOk body tsUrls s"
    unfolding s_def by (rule reached_slotsOk)
  note d = slotsOk_D [OF inv]
  have b: "fetchingAt (activeTasks s) w i u \<longrightarrow>
      downloadedCount (step body (length tsUrls) s (Resolved w)) = downloadedCount s + 1
      \<and> progress (step body (length tsUrls) s (Resolved w)) =
          progress s @ [(percentage (downloadedCount s + 1) (length tsUrls),
            downloadedCount s + 1, length tsUrls)]
      \<and> downloadedCount (step body (length tsUrls) s (ResolvedThrows w)) = downloadedCount s + 1
      \<and> progress (step body (length tsUrls) s (ResolvedThrows w)) =
          progress s @ [(percentage (downloadedCount s + 1) (length tsUrls),
            downloadedCount s + 1, length tsUrls)]"
    using resolved_store [of s w i u body "length tsUrls"]
      throws_store [of s w i u body "length tsUrls"] by blast
  have c: "\<not> (\<exists>i u. fetchingAt (activeTasks s) w i u) \<longrightarrow>
      step body (length tsUrls) s (Resolved w) = s
      \<and> step body (length tsUrls) s (ResolvedThrows w) = s"
    using step_resolved_idle [of s w body "length tsUrls"] by blast
  have e: "downloadedCount (step body (length tsUrls) s Abort) = downloadedCount s
      \<and> progress (step body (length tsUrls) s Abort) = progress s"
    by simp
  have f: "0 < length tsUrls \<longrightarrow> percentage (length tsUrls) (length tsUrls) = 100"
    using percentage_all by blast
  have g: "0 < length tsUrls \<and> k < 2 ^ 43 \<longrightarrow>
      specPercentage k (length tsUrls) - 1 \<le> percentage k (length tsUrls)
      \<and> percentage k (length tsUrls) \<le> specPercentage k (length tsUrls)
      \<and> (frac (of_nat k / of_nat (length tsUrls) * 100 :: rat) \<noteq> 1 / 2 \<longrightarrow>
            percentage k (length tsUrls) = specPercentage k (length tsUrls))"
    using percentage_spec [of "length tsUrls" k] by blast
  have h: "percentage 23 40 = specPercentage 23 40 - 1"
    by code_simp
  from d(5) b c step_rejected_keeps [of body "length tsUrls" s w] e f g h
  show ?thesis
    unfolding s_def [symmetric] Let_def by blast
qed

text \<open>
  Three segments: whatever the order, the callback is called with 33, 67 and 100 per
  cent; here with a rejection and with an abort in between.  The exact value of
  \<open>1 / 3 * 100\<close> does not lie halfway between two integers, and 33 is its rounding; the
  exact value of \<open>23 / 40 * 100\<close> does, and 57 is one less than its rounding.
\<close>

theorem progress_percentage_witness:
  "progress (run exampleBody (length exampleUrls)
       [Rejected 0, Resolved 1, Resolved 0, Resolved 1] (started exampleUrls 2))
     = [(33, 1, 3), (67, 2, 3), (100, 3, 3)]
   \<and> progress (step exampleBody (length exampleUrls) (started exampleUrls 2) (Resolved 1))
     = [(33, 1, 3)]
   \<and> progress (step exampleBody (length exampleUrls) (started exampleUrls 2) (ResolvedThrows 1))
     = [(33, 1, 3)]
   \<and> progress (run exampleBody (length exampleUrls)
       [Resolved 1, Abort, Resolved 0] (started exampleUrls 2))
     = [(33, 1, 3), (67, 2, 3)]
   \<and> step exampleBody (length exampleUrls)
        (run exampleBody (length exampleUrls) [Rejected 0, Resolved 1, Resolved 0, Resolved 1]
          (started exampleUrls 2)) (Resolved 0)
     = run exampleBody (length exampleUrls) [Rejected 0, Resolved 1, Resolved 0, Resolved 1]
          (started exampleUrls 2)
   \<and> percentage (length exampleUrls) (length exampleUrls) = 100
   \<and> percentage 1 (length exampleUrls) = specPercentage 1 (length exampleUrls)
   \<and> specPercentage 1 (length exampleUrls) = 33
   \<and> percentage 23 40 \<le> specPercentage 23 40
   \<and> percentage 23 40 = 57 \<and> specPercentage 23 40 = 58"
proof -
  let ?e1 = "[Rejected 0, Resolved 1, Resolved 0, Resolved 1]"
  let ?e2 = "[Resolved 1, Abort, Resolved 0]"
  have l: "length exampleUrls = 3"
    by (simp add: exampleUrls_def)
  have r0: "run exampleBody 3 [] (started exampleUrls 2) = started exampleUrls 2"
    by (simp add: run_def)
  have c1: "downloadedCount (run exampleBody 3 ?e1 (started exampleUrls 2)) = 3"
    by code_simp
  have c2: "downloadedCount (run exampleBody 3 ?e2 (started exampleUrls 2)) = 2"
    by code_simp
  have c0: "downloadedCount (started exampleUrls 2) = 0" "progress (started exampleUrls 2) = []"
    by code_simp+
  have f: "fetchingAt (activeTasks (started exampleUrls 2)) 1 1 ''http://cdn/p/b.ts''"
    by code_simp
  have a1: "activeTasks (run exampleBody 3 ?e1 (started exampleUrls 2)) = [Exited, Exited]"
    by code_simp
  have nf: "\<not> (\<exists>i u. fetchingAt (activeTasks (run exampleBody 3 ?e1 (started exampleUrls 2))) 0 i u)"
    unfolding a1 by (simp add: fetchingAt_def)
  have p: "percentage 1 3 = 33" "percentage (Suc 0) 3 = 33" "percentage 2 3 = 67"
    "percentage 3 3 = 100"
    by code_simp+
  have u1: "[1..<Suc 3] = [1, 2, 3]" and u2: "[1..<Suc 2] = [1, 2]"
    by code_simp+
  have pos: "(0::nat) < 3" by simp
  have h1: "(0::nat) < 3 \<and> (1::nat) < 2 ^ 43" by simp
  have fr: "frac (of_nat (1::nat) / of_nat (3::nat) * 100 :: rat) \<noteq> 1 / 2" by code_simp
  have len40: "length (replicate 40 ''u'') = 40" by simp
  have h40: "(0::nat) < 40 \<and> (23::nat) < 2 ^ 43" by simp
  have sp: "specPercentage 1 3 = 33" by code_simp
  note t1 = progress_percentage [where tsUrls = exampleUrls and body = exampleBody and evs = ?e1
      and maxConcurrent = 2 and w = 0 and k = 1, unfolded Let_def l]
  note t2 = progress_percentage [where tsUrls = exampleUrls and body = exampleBody and evs = ?e2
      and maxConcurrent = 2, unfolded Let_def l]
  note t0 = progress_percentage [where tsUrls = exampleUrls and body = exampleBody and evs = "[]"
      and maxConcurrent = 2 and w = 1 and i = 1 and u = "''http://cdn/p/b.ts''",
      unfolded Let_def l r0]
  note t4 = progress_percentage [where tsUrls = "replicate 40 ''u''" and k = 23,
      unfolded Let_def len40]
  have "progress (run exampleBody 3 ?e1 (started exampleUrls 2))
      = map (\<lambda>k. (percentage k 3, k, 3)) [1..<Suc (downloadedCount (run exampleBody 3 ?e1 (started exampleUrls 2)))]"
    by (rule t1 [THEN conjunct1])
  then have p1: "progress (run exampleBody 3 ?e1 (started exampleUrls 2)) = [(33, 1, 3), (67, 2, 3), (100, 3, 3)]"
    unfolding c1 u1 by (simp add: p)
  have "progress (run exampleBody 3 ?e2 (started exampleUrls 2))
      = map (\<lambda>k. (percentage k 3, k, 3)) [1..<Suc (downloadedCount (run exampleBody 3 ?e2 (started exampleUrls 2)))]"
    by (rule t2 [THEN conjunct1])
  then have p2: "progress (run exampleBody 3 ?e2 (started exampleUrls 2)) = [(33, 1, 3), (67, 2, 3)]"
    unfolding c2 u2 by (simp add: p)
  note k0 = t0 [THEN conjunct2, THEN conjunct1, THEN mp, OF f]
  have "progress (step exampleBody 3 (started exampleUrls 2) (Resolved 1)) =
      progress (started exampleUrls 2) @
        [(percentage (downloadedCount (started exampleUrls 2) + 1) 3,
          downloadedCount (started exampleUrls 2) + 1, 3)]"
    by (rule k0 [THEN conjunct2, THEN conjunct1])
  then have p0: "progress (step exampleBody 3 (started exampleUrls 2) (Resolved 1)) = [(33, 1, 3)]"
    unfolding c0 by (simp add: p)
  have "progress (step exampleBody 3 (started exampleUrls 2) (ResolvedThrows 1)) =
      progress (started exampleUrls 2) @
        [(percentage (downloadedCount (started exampleUrls 2) + 1) 3,
          downloadedCount (started exampleUrls 2) + 1, 3)]"
    by (rule k0 [THEN conjunct2, THEN conjunct2, THEN conjunct2])
  then have p0': "progress (step exampleBody 3 (started exampleUrls 2) (ResolvedThrows 1)) = [(33, 1, 3)]"
    unfolding c0 by (simp add: p)
  have p3: "step exampleBody 3 (run exampleBody 3 ?e1 (started exampleUrls 2)) (Resolved 0)
      = run exampleBody 3 ?e1 (started exampleUrls 2)"
    by (rule t1 [THEN conjunct2, THEN conjunct2, THEN conjunct1, THEN mp, OF nf, THEN conjunct1])
  have p4: "percentage 3 3 = 100"
    by (rule t1 [THEN conjunct2, THEN conjunct2, THEN conjunct2, THEN conjunct2, THEN conjunct2,
          THEN conjunct2, THEN conjunct2, THEN conjunct2, THEN conjunct2, THEN mp, OF pos])
  have p5: "percentage 1 3 = specPercentage 1 3"
    by (rule t1 [THEN conjunct2, THEN conjunct2, THEN conjunct2, THEN conjunct2, THEN conjunct2,
          THEN conjunct2, THEN conjunct2, THEN conjunct1, THEN mp, OF h1,
          THEN conjunct2, THEN conjunct2, THEN mp, OF fr])
  have p6: "percentage 23 40 \<le> specPercentage 23 40"
    by (rule t4 [THEN conjunct2, THEN conjunct2, THEN conjunct2, THEN conjunct2, THEN conjunct2,
          THEN conjunct2, THEN conjunct2, THEN conjunct1, THEN mp, OF h40,
          THEN conjunct2, THEN conjunct1])
  have p7: "percentage 23 40 = 57" "specPercentage 23 40 = 58" by code_simp+
  from p1 p0 p0' p2 p3 p4 p5 sp p6 p7 show ?thesis unfolding l by (intro conjI)
qed

section \<open>Cancellation\<close>

lemma processTask_aborted:
  "aborted s \<Longrightarrow> processTask w s = s\<lparr>activeTasks := (activeTasks s)[w := Exited]\<rparr>"
  by (simp add: processTask_def)

lemma step_aborted:
  assumes "aborted s"
  shows "aborted (step body n s ev) \<and> fetched (step body n s ev) = fetched s"
proof (cases ev)
  case (Resolved w)
  then show ?thesis using assms
    by (simp add: onResolved_def store_def processTask_def split: worker.splits)
next
  case (ResolvedThrows w)
  then show ?thesis using assms
    by (simp add: onCallbackThrows_def onRejected_def store_def split: worker.splits)
next
  case (Rejected w)
  then show ?thesis using assms
    by (simp add: onRejected_def split: worker.splits)
next
  case Abort
  then show ?thesis by simp
qed

lemma run_aborted:
  "aborted s \<Longrightarrow> aborted (run body n evs s) \<and> fetched (run body n evs s) = fetched s"
proof (induction evs arbitrary: s)
  case Nil
  then show ?case by (simp add: run_def)
next
  case (Cons ev evs)
  from step_aborted [OF Cons.prems, of body n ev]
  have a: "aborted (step body n s ev)" and f: "fetched (step body n s ev) = fetched s"
    by simp_all
  from Cons.IH [OF a] f show ?case by (simp add: run_def)
qed

lemma step_exited_stays:
  assumes "w < length (activeTasks s)" and "activeTasks s ! w = Exited"
  shows "activeTasks (step body n s ev) ! w = Exited"
proof (cases ev)
  case (Resolved w')
  show ?thesis
  proof (cases "w' = w")
    case True
    then show ?thesis using assms Resolved by (simp add: onResolved_def)
  next
    case False
    then show ?thesis using assms Resolved
      by (simp add: onResolved_def store_def processTask_def
          split: worker.splits list.splits prod.splits)
  qed
next
  case (ResolvedThrows w')
  show ?thesis
  proof (cases "w' = w")
    case True
    then show ?thesis using assms ResolvedThrows by (simp add: onCallbackThrows_def)
  next
    case False
    then show ?thesis using assms ResolvedThrows
      by (simp add: onCallbackThrows_def onRejected_def store_def processTask_def
          split: worker.splits list.splits prod.splits)
  qed
next
  case (Rejected w')
  show ?thesis
  proof (cases "w' = w")
    case True
    then show ?thesis using assms Rejected by (simp add: onRejected_def)
  next
    case False
    then show ?thesis using assms Rejected
      by (simp add: onRejected_def processTask_def split: worker.splits list.splits prod.splits)
  qed
next
  case Abort
  then show ?thesis using assms by simp
qed

lemma step_settles:
  assumes "aborted s" and "w < length (activeTasks s)"
    and "ev = Resolved w \<or> ev = ResolvedThrows w \<or> ev = Rejected w"
  shows "activeTasks (step body n s ev) ! w = Exited"
  using assms
  by (auto simp: onResolved_def onCallbackThrows_def onRejected_def store_def processTask_def
      split: worker.splits)

lemma run_worker_exits:
  assumes "aborted s" and "w < length (activeTasks s)"
    and "activeTasks s ! w = Exited \<or> Resolved w \<in> set evs \<or> ResolvedThrows w \<in> set evs
      \<or> Rejected w \<in> set evs"
  shows "activeTasks (run body n evs s) ! w = Exited"
  using assms
proof (induction evs arbitrary: s)
  case Nil
  then show ?case by (simp add: run_def)
next
  case (Cons ev evs)
  let ?s = "step body n s ev"
  have a: "aborted ?s" using step_aborted [OF Cons.prems(1)] by simp
  have l: "w < length (activeTasks ?s)" using Cons.prems(2) by (simp add: length_step)
  have "activeTasks ?s ! w = Exited \<or> Resolved w \<in> set evs \<or> ResolvedThrows w \<in> set evs
      \<or> Rejected w \<in> set evs"
  proof (cases "activeTasks s ! w = Exited")
    case True
    then show ?thesis using step_exited_stays [OF Cons.prems(2)] by simp
  next
    case False
    show ?thesis
    proof (cases "ev = Resolved w \<or> ev = ResolvedThrows w \<or> ev = Rejected w")
      case True
      then show ?thesis using step_settles [OF Cons.prems(1,2)] by simp
    next
      case False
      with \<open>activeTasks s ! w \<noteq> Exited\<close> Cons.prems(3) show ?thesis by auto
    qed
  qed
  from Cons.IH [OF a l this] show ?case by (simp add: run_def)
qed

lemma run_all_exit:
  assumes "aborted s"
    and "\<forall>w < length (activeTasks s).
      Resolved w \<in> set evs \<or> ResolvedThrows w \<in> set evs \<or> Rejected w \<in> set evs"
  shows "allExited (run body n evs s)"
proof -
  have "activeTasks (run body n evs s) ! w = Exited" if "w < length (activeTasks (run body n evs s))" for w
  proof -
    from that have w: "w < length (activeTasks s)" by (simp add: length_run)
    with assms(2) have "Resolved w \<in> set evs \<or> ResolvedThrows w \<in> set evs \<or> Rejected w \<in> set evs"
      by blast
    then show ?thesis using run_worker_exits [OF assms(1) w] by blast
  qed
  then show ?thesis
    by (simp add: allExited_def list_all_length)
qed

section \<open>The outcomes of \<open>downloadVideo\<close>\<close>

lemma videoHandler_cases:
  "videoHandler e w = (out, w') \<Longrightarrow>
     w' = w \<and> (if signalAborted w then out = Returned else out = Threw (DownloadVideoFailed e))"
  by (auto simp: videoHandler_def split: if_splits)

lemma commit_fields:
  "signalAborted (commit s w) = aborted s"
  "saved (commit s w) = saved w"
  "segmentFetches (commit s w) = segmentFetches w @ fetched s"
  "progressCalls (commit s w) = progressCalls w @ progress s"
  "seriesProgress (commit s w) = seriesProgress w"
  by (simp_all add: commit_def)

text \<open>
  Whatever \<open>downloadVideo\<close> returns: an error leaves the saved files as they were and is
  thrown only while the signal is not aborted, and a file is saved only as the last
  step of a normal return.
\<close>

lemma downloadVideo_threw:
  assumes "downloadVideo fetchText URL_parse body m3u8Url filename maxConcurrent evs w
      = Some (Threw e, w')"
  shows "\<not> signalAborted w' \<and> saved w' = saved w \<and> (\<exists>e'. e = DownloadVideoFailed e')"
  using assms
  by (auto simp: downloadVideo_def commit_fields saveBlobToFile_def
      split: option.splits sum.splits if_splits prod.splits dest!: videoHandler_cases)

lemma downloadVideo_returned_saved:
  assumes "downloadVideo fetchText URL_parse body m3u8Url filename maxConcurrent evs w
      = Some (out, w')"
  shows "saved w' = saved w \<or> (out = Returned \<and> (\<exists>b. saved w' = saved w @ [(b, filename)]))"
  using assms
  by (auto simp: downloadVideo_def commit_fields saveBlobToFile_def
      split: option.splits sum.splits if_splits prod.splits dest!: videoHandler_cases)

lemma initial_aborted_merge:
  "tsUrls \<noteq> [] \<Longrightarrow> \<exists>e. mergeArrayBuffers (tsBuffers (initial tsUrls True)) = Inl e"
  by (intro mergeArrayBuffers_hole) (cases tsUrls, simp_all add: initial_def)

lemma commit_initial_aborted:
  "signalAborted w \<Longrightarrow> commit (initial tsUrls True) w = w"
  by (simp add: commit_def initial_def)

lemma downloadVideo_aborted_start:
  assumes "signalAborted w" and "parseM3u8 fetchText URL_parse m3u8Url = Some r"
  shows "downloadVideo fetchText URL_parse body m3u8Url filename maxConcurrent evs w
      = Some (Returned, w)"
proof (cases r)
  case (Inl e)
  then show ?thesis using assms by (simp add: downloadVideo_def videoHandler_def)
next
  case (Inr tsUrls)
  show ?thesis
  proof (cases "tsUrls = []")
    case True
    then show ?thesis using assms Inr by (simp add: downloadVideo_def videoHandler_def)
  next
    case False
    from initial_aborted_merge [OF False] obtain e
      where "mergeArrayBuffers (tsBuffers (initial tsUrls True)) = Inl e" by blast
    then show ?thesis using assms Inr False
      by (simp add: downloadVideo_def downloadInParallel_def videoHandler_def
          commit_initial_aborted)
  qed
qed

section \<open>The loop of \<open>downloadPlaylist\<close>\<close>

lemma forwardProgress_fields:
  "signalAborted (forwardProgress i n before w) = signalAborted w"
  "saved (forwardProgress i n before w) = saved w"
  "segmentFetches (forwardProgress i n before w) = segmentFetches w"
  by (simp_all add: forwardProgress_def)

lemma playlistLoop_threw:
  "playlistLoop fetchText URL_parse body titles baseFilename maxConcurrent schedule n i episodes w
      = Some (Threw e, w') \<Longrightarrow>
   \<not> signalAborted w' \<and> (\<exists>e'. e = DownloadVideoFailed e')"
proof (induction episodes arbitrary: i w)
  case Nil
  then show ?case by simp
next
  case (Cons m episodes)
  show ?case
  proof (cases "signalAborted w")
    case True
    with Cons.prems show ?thesis by simp
  next
    case False
    show ?thesis
    proof (cases "downloadVideo fetchText URL_parse body m (episodeFilename titles baseFilename i)
        maxConcurrent (schedule i) w")
      case None
      with Cons.prems False show ?thesis by simp
    next
      case (Some r)
      obtain out w1 where r: "r = (out, w1)" by (cases r)
      show ?thesis
      proof (cases out)
        case Returned
        with Cons.prems False Some r
        have "playlistLoop fetchText URL_parse body titles baseFilename maxConcurrent schedule n
            (i + 1) episodes (forwardProgress i n w w1) = Some (Threw e, w')"
          by simp
        then show ?thesis by (rule Cons.IH)
      next
        case (Threw x)
        with Cons.prems False Some r have e: "x = e" "w' = forwardProgress i n w w1" by simp_all
        from downloadVideo_threw [of fetchText URL_parse body m _ maxConcurrent _ w x w1]
          Some r Threw
        show ?thesis unfolding e by (simp add: forwardProgress_fields)
      qed
    qed
  qed
qed

lemma playlistLoop_saved:
  "playlistLoop fetchText URL_parse body titles baseFilename maxConcurrent schedule n i episodes w
      = Some (out, w') \<Longrightarrow> \<exists>ys. saved w' = saved w @ ys"
proof (induction episodes arbitrary: i w)
  case Nil
  then show ?case by simp
next
  case (Cons m episodes)
  show ?case
  proof (cases "signalAborted w")
    case True
    with Cons.prems show ?thesis by simp
  next
    case False
    show ?thesis
    proof (cases "downloadVideo fetchText URL_parse body m (episodeFilename titles baseFilename i)
        maxConcurrent (schedule i) w")
      case None
      with Cons.prems False show ?thesis by simp
    next
      case (Some r)
      obtain o1 w1 where r: "r = (o1, w1)" by (cases r)
      have "saved w1 = saved w
          \<or> (o1 = Returned \<and> (\<exists>b. saved w1 = saved w @ [(b, episodeFilename titles baseFilename i)]))"
        by (rule downloadVideo_returned_saved) (use Some r in simp)
      then obtain xs where xs: "saved w1 = saved w @ xs" by auto
      show ?thesis
      proof (cases o1)
        case Returned
        with Cons.prems False Some r
        have "playlistLoop fetchText URL_parse body titles baseFilename maxConcurrent schedule n
            (i + 1) episodes (forwardProgress i n w w1) = Some (out, w')"
          by simp
        from Cons.IH [OF this] obtain ys
          where "saved w' = saved (forwardProgress i n w w1) @ ys" by blast
        with xs show ?thesis by (simp add: forwardProgress_fields)
      next
        case (Threw x)
        with Cons.prems False Some r have "w' = forwardProgress i n w w1" by simp
        with xs show ?thesis by (simp add: forwardProgress_fields)
      qed
    qed
  qed
qed

lemma playlistLoop_aborted:
  "signalAborted w \<Longrightarrow>
     playlistLoop fetchText URL_parse body titles baseFilename maxConcurrent schedule n i episodes w
       = Some (Returned, w)"
  by (cases episodes) simp_all

lemma playlistLoop_returned_aborted:
  "playlistLoop fetchText URL_parse body titles baseFilename maxConcurrent schedule n i episodes w
      = Some (out, w') \<Longrightarrow> signalAborted w' \<Longrightarrow> out = Returned"
  using playlistLoop_threw [of fetchText URL_parse body titles baseFilename maxConcurrent schedule
      n i episodes w _ w']
  by (cases out) auto

text \<open>The loop over a list is the loop over a first part and then over the rest.\<close>

lemma playlistLoop_append:
  "playlistLoop fetchText URL_parse body titles baseFilename maxConcurrent schedule n i
      (pre @ post) w =
     (case playlistLoop fetchText URL_parse body titles baseFilename maxConcurrent schedule n i
             pre w of
        None \<Rightarrow> None
      | Some (Threw e, w1) \<Rightarrow> Some (Threw e, w1)
      | Some (Returned, w1) \<Rightarrow>
          playlistLoop fetchText URL_parse body titles baseFilename maxConcurrent schedule n
            (i + length pre) post w1)"
proof (induction pre arbitrary: i w)
  case Nil
  then show ?case by simp
next
  case (Cons m pre)
  show ?case
  proof (cases "signalAborted w")
    case True
    then show ?thesis by (simp add: playlistLoop_aborted)
  next
    case False
    show ?thesis
    proof (cases "downloadVideo fetchText URL_parse body m (episodeFilename titles baseFilename i)
        maxConcurrent (schedule i) w")
      case None
      with False show ?thesis by simp
    next
      case (Some r)
      obtain o1 w1 where r: "r = (o1, w1)" by (cases r)
      show ?thesis
      proof (cases o1)
        case Returned
        with False Some r Cons.IH [of "Suc i" "forwardProgress i n w w1"] show ?thesis
          by (simp split: option.splits prod.splits outcome.splits)
      next
        case (Threw x)
        with False Some r show ?thesis by simp
      qed
    qed
  qed
qed

section \<open>Cancellation, empty playlists and failing episodes\<close>

lemma downloadVideo_aborted_end:
  assumes "downloadVideo fetchText URL_parse body m3u8Url filename maxConcurrent evs w
      = Some (out, w')" and "signalAborted w'"
  shows "out = Returned"
proof (cases out)
  case Returned
  then show ?thesis .
next
  case (Threw e)
  with assms(1) downloadVideo_threw [of fetchText URL_parse body m3u8Url filename maxConcurrent evs w e w']
  have "\<not> signalAborted w'" by simp
  with assms(2) show ?thesis by simp
qed

lemma downloadPlaylist_aborted_end:
  assumes "downloadPlaylist fetchText URL_parse body episodes titles baseFilename maxConcurrent
      schedule w = Some (out, w')" and "signalAborted w'"
  shows "out = Returned"
  using assms
  by (auto simp: downloadPlaylist_def split: option.splits prod.splits outcome.splits if_splits)

lemma downloadPlaylist_aborted_start:
  "signalAborted w \<Longrightarrow>
     downloadPlaylist fetchText URL_parse body episodes titles baseFilename maxConcurrent schedule w
       = Some (Returned, w)"
  by (simp add: downloadPlaylist_def playlistLoop_aborted)

text \<open>
  Claim C2.  Once the signal is aborted, no event of the scheduler starts a fetch and
  the signal stays aborted; \<open>processTask\<close> tests the signal first and returns without
  taking a task; and once every worker's pending fetch has settled (fulfilled, with a
  callback that returns or throws, or rejected), all workers have returned.  Whenever
  \<open>downloadVideo\<close> or \<open>downloadPlaylist\<close> ends with the signal
  aborted it has returned normally, not thrown.  Called with the signal already
  aborted, \<open>downloadPlaylist\<close> returns at once and changes nothing, and so does
  \<open>downloadVideo\<close> as soon as the playlist resolution has returned.
\<close>

theorem cancellation_silent:
  "(aborted s \<longrightarrow>
      fetched (run body n evs s) = fetched s \<and> aborted (run body n evs s)
      \<and> processTask v s = s\<lparr>activeTasks := (activeTasks s)[v := Exited]\<rparr>)
   \<and> (aborted s
        \<and> (\<forall>k < length (activeTasks s).
              Resolved k \<in> set evs \<or> ResolvedThrows k \<in> set evs \<or> Rejected k \<in> set evs) \<longrightarrow>
        allExited (run body n evs s))
   \<and> (downloadVideo fetchText URL_parse body m3u8Url filename maxConcurrent evs w = Some (out, w')
        \<and> signalAborted w' \<longrightarrow> out = Returned)
   \<and> (downloadPlaylist fetchText URL_parse body episodes titles baseFilename maxConcurrent
          schedule w = Some (out, w') \<and> signalAborted w' \<longrightarrow> out = Returned)
   \<and> (signalAborted w \<longrightarrow>
        downloadPlaylist fetchText URL_parse body episodes titles baseFilename maxConcurrent
          schedule w = Some (Returned, w))
   \<and> (signalAborted w \<and> parseM3u8 fetchText URL_parse m3u8Url \<noteq> None \<longrightarrow>
        downloadVideo fetchText URL_parse body m3u8Url filename maxConcurrent evs w
          = Some (Returned, w))"
proof (intro conjI impI)
  assume a: "aborted s"
  show "fetched (run body n evs s) = fetched s" using run_aborted [OF a] by simp
  show "aborted (run body n evs s)" using run_aborted [OF a] by simp
  show "processTask v s = s\<lparr>activeTasks := (activeTasks s)[v := Exited]\<rparr>"
    using a by (rule processTask_aborted)
next
  assume "aborted s
      \<and> (\<forall>k < length (activeTasks s).
            Resolved k \<in> set evs \<or> ResolvedThrows k \<in> set evs \<or> Rejected k \<in> set evs)"
  then show "allExited (run body n evs s)"
    by (intro run_all_exit) auto
next
  assume "downloadVideo fetchText URL_parse body m3u8Url filename maxConcurrent evs w = Some (out, w')
        \<and> signalAborted w'"
  then show "out = Returned"
    using downloadVideo_aborted_end by blast
next
  assume "downloadPlaylist fetchText URL_parse body episodes titles baseFilename maxConcurrent
          schedule w = Some (out, w') \<and> signalAborted w'"
  then show "out = Returned"
    using downloadPlaylist_aborted_end by blast
next
  assume "signalAborted w"
  then show "downloadPlaylist fetchText URL_parse body episodes titles baseFilename maxConcurrent
          schedule w = Some (Returned, w)"
    by (rule downloadPlaylist_aborted_start)
next
  assume "signalAborted w \<and> parseM3u8 fetchText URL_parse m3u8Url \<noteq> None"
  then obtain r where "signalAborted w" "parseM3u8 fetchText URL_parse m3u8Url = Some r"
    by auto
  then show "downloadVideo fetchText URL_parse body m3u8Url filename maxConcurrent evs w
          = Some (Returned, w)"
    by (rule downloadVideo_aborted_start)
qed

text \<open>
  Three segments, two workers.  Segment 1 arrives, the caller aborts, the fetch of
  segment 0 is rejected and the fetch of segment 2 still arrives: the download returns
  normally, with three fetches started (none after the abort) and no file saved.
\<close>

theorem cancellation_silent_witness:
  "downloadVideo exampleFetch exampleURL exampleBody ''http://cdn/p/index.m3u8'' ''out.mp4'' 2
      [Resolved 1, Abort, Rejected 0, Resolved 1] freshWorld
     = Some (Returned,
         \<lparr>signalAborted = True, saved = [],
          segmentFetches = [''http://cdn/p/a.ts'', ''http://cdn/p/b.ts'', ''http://cdn/p/c.ts''],
          progressCalls = [(33, 1, 3), (67, 2, 3)], seriesProgress = []\<rparr>)
   \<and> fetched (run exampleBody 3 [Rejected 0, Resolved 1]
        (run exampleBody 3 [Resolved 1, Abort] (started exampleUrls 2)))
     = fetched (run exampleBody 3 [Resolved 1, Abort] (started exampleUrls 2))
   \<and> allExited (run exampleBody 3 [Rejected 0, Resolved 1]
        (run exampleBody 3 [Resolved 1, Abort] (started exampleUrls 2)))
   \<and> downloadPlaylist exampleFetch exampleURL exampleBody
        [''http://cdn/p/index.m3u8'', ''http://cdn/p/index.m3u8''] [] ''show'' 2
        (\<lambda>i. [Resolved 1, Abort, Rejected 0, Resolved 1]) freshWorld
     = Some (Returned,
         \<lparr>signalAborted = True, saved = [],
          segmentFetches = [''http://cdn/p/a.ts'', ''http://cdn/p/b.ts'', ''http://cdn/p/c.ts''],
          progressCalls = [(33, 1, 3), (67, 2, 3)],
          seriesProgress = [(1, 2, 33), (1, 2, 67)]\<rparr>)
   \<and> downloadPlaylist exampleFetch exampleURL exampleBody [''http://cdn/p/index.m3u8''] []
        ''show'' 2 (\<lambda>i. []) (freshWorld\<lparr>signalAborted := True\<rparr>)
     = Some (Returned, freshWorld\<lparr>signalAborted := True\<rparr>)
   \<and> downloadVideo exampleFetch exampleURL exampleBody ''http://cdn/p/index.m3u8'' ''out.mp4'' 2
        [] (freshWorld\<lparr>signalAborted := True\<rparr>)
     = Some (Returned, freshWorld\<lparr>signalAborted := True\<rparr>)"
proof -
  let ?s = "run exampleBody 3 [Resolved 1, Abort] (started exampleUrls 2)"
  let ?evs = "[Resolved 1, Abort, Rejected 0, Resolved 1]"
  let ?w' = "\<lparr>signalAborted = True, saved = [],
          segmentFetches = [''http://cdn/p/a.ts'', ''http://cdn/p/b.ts'', ''http://cdn/p/c.ts''],
          progressCalls = [(33, 1, 3), (67, 2, 3)], seriesProgress = []\<rparr>"
  let ?w'' = "\<lparr>signalAborted = True, saved = [],
          segmentFetches = [''http://cdn/p/a.ts'', ''http://cdn/p/b.ts'', ''http://cdn/p/c.ts''],
          progressCalls = [(33, 1, 3), (67, 2, 3)],
          seriesProgress = [(1, 2, 33), (1, 2, 67)]\<rparr>"
  let ?eps = "[''http://cdn/p/index.m3u8'', ''http://cdn/p/index.m3u8'']"
  have a: "aborted ?s" by code_simp
  have l: "length (activeTasks ?s) = 2" by code_simp
  have k: "\<forall>k < length (activeTasks ?s).
      Resolved k \<in> set [Rejected 0, Resolved 1] \<or> ResolvedThrows k \<in> set [Rejected 0, Resolved 1]
      \<or> Rejected k \<in> set [Rejected 0, Resolved 1]"
    unfolding l by (simp add: less_Suc_eq numeral_2_eq_2)
  have "map_option snd (downloadVideo exampleFetch exampleURL exampleBody ''http://cdn/p/index.m3u8''
      ''out.mp4'' 2 ?evs freshWorld) = Some ?w'"
    by code_simp
  then obtain out where d: "downloadVideo exampleFetch exampleURL exampleBody
      ''http://cdn/p/index.m3u8'' ''out.mp4'' 2 ?evs freshWorld = Some (out, ?w')"
    unfolding map_option_eq_Some by (elim exE conjE) (metis prod.collapse)
  have "map_option snd (downloadPlaylist exampleFetch exampleURL exampleBody ?eps [] ''show'' 2
      (\<lambda>i. ?evs) freshWorld) = Some ?w''"
    by code_simp
  then obtain out' where d': "downloadPlaylist exampleFetch exampleURL exampleBody ?eps []
      ''show'' 2 (\<lambda>i. ?evs) freshWorld = Some (out', ?w'')"
    unfolding map_option_eq_Some by (elim exE conjE) (metis prod.collapse)
  have sa: "signalAborted ?w'" "signalAborted ?w''" by simp_all
  note t = cancellation_silent [where s = "?s" and body = exampleBody and n = 3
      and evs = "[Rejected 0, Resolved 1]"]
  note t' = cancellation_silent [where fetchText = exampleFetch and URL_parse = exampleURL
      and body = exampleBody and ?m3u8Url = "''http://cdn/p/index.m3u8''"
      and filename = "''out.mp4''" and maxConcurrent = 2
      and evs = ?evs and w = freshWorld and out = out and w' = "?w'"]
  note t'' = cancellation_silent [where fetchText = exampleFetch and URL_parse = exampleURL
      and body = exampleBody and episodes = ?eps and titles = "[]" and baseFilename = "''show''"
      and maxConcurrent = 2 and schedule = "\<lambda>i. ?evs" and w = freshWorld and out = out'
      and w' = "?w''"]
  have "out = Returned"
    by (rule t' [THEN conjunct2, THEN conjunct2, THEN conjunct1, THEN mp]) (use d sa in blast)
  with d have p1: "downloadVideo exampleFetch exampleURL exampleBody ''http://cdn/p/index.m3u8''
      ''out.mp4'' 2 ?evs freshWorld = Some (Returned, ?w')"
    by simp
  have p2: "fetched (run exampleBody 3 [Rejected 0, Resolved 1] ?s) = fetched ?s"
    by (rule t [THEN conjunct1, THEN mp, OF a, THEN conjunct1])
  have p3: "allExited (run exampleBody 3 [Rejected 0, Resolved 1] ?s)"
    by (rule t [THEN conjunct2, THEN conjunct1, THEN mp]) (use a k in blast)
  have "out' = Returned"
    by (rule t'' [THEN conjunct2, THEN conjunct2, THEN conjunct2, THEN conjunct1, THEN mp])
      (use d' sa in blast)
  with d' have p4: "downloadPlaylist exampleFetch exampleURL exampleBody ?eps [] ''show'' 2
      (\<lambda>i. ?evs) freshWorld = Some (Returned, ?w'')"
    by simp
  have sw: "signalAborted (freshWorld\<lparr>signalAborted := True\<rparr>)" by simp
  have p5: "downloadPlaylist exampleFetch exampleURL exampleBody [''http://cdn/p/index.m3u8''] []
        ''show'' 2 (\<lambda>i. []) (freshWorld\<lparr>signalAborted := True\<rparr>)
     = Some (Returned, freshWorld\<lparr>signalAborted := True\<rparr>)"
    by (rule cancellation_silent [THEN conjunct2, THEN conjunct2, THEN conjunct2, THEN conjunct2,
          THEN conjunct1, THEN mp, OF sw])
  have "parseM3u8 exampleFetch exampleURL ''http://cdn/p/index.m3u8'' = Some (Inr exampleUrls)"
    by code_simp
  then have pn: "signalAborted (freshWorld\<lparr>signalAborted := True\<rparr>)
      \<and> parseM3u8 exampleFetch exampleURL ''http://cdn/p/index.m3u8'' \<noteq> None"
    by simp
  have p6: "downloadVideo exampleFetch exampleURL exampleBody ''http://cdn/p/index.m3u8'' ''out.mp4'' 2
        [] (freshWorld\<lparr>signalAborted := True\<rparr>)
     = Some (Returned, freshWorld\<lparr>signalAborted := True\<rparr>)"
    by (rule cancellation_silent [THEN conjunct2, THEN conjunct2, THEN conjunct2, THEN conjunct2,
          THEN conjunct2, THEN mp, OF pn])
  from p1 p2 p3 p4 p5 p6 show ?thesis by (intro conjI)
qed

text \<open>
  Claim C6, as stated, fails when the signal is aborted: for a playlist without segment
  lines and an aborted signal \<open>downloadVideo\<close> returns normally and throws nothing.
\<close>

theorem empty_playlist_aborted_counterexample:
  "parseM3u8 exampleFetch exampleURL ''http://cdn/e/empty.m3u8'' = Some (Inr [])
   \<and> downloadVideo exampleFetch exampleURL exampleBody ''http://cdn/e/empty.m3u8'' ''out.mp4'' 5 []
        (freshWorld\<lparr>signalAborted := True\<rparr>)
      = Some (Returned, freshWorld\<lparr>signalAborted := True\<rparr>)"
  by code_simp

text \<open>
  Claim C6, amended.  When the playlist resolution yields no segment locator and the
  signal is not aborted, \<open>downloadVideo\<close> throws its error around \<open>NoTsSegments\<close>; when
  the signal is aborted it returns normally.  In both cases nothing else happens: no
  segment fetch is started, no progress is reported and no file is saved.
\<close>

theorem empty_playlist_error:
  "parseM3u8 fetchText URL_parse m3u8Url = Some (Inr []) \<Longrightarrow>
     downloadVideo fetchText URL_parse body m3u8Url filename maxConcurrent evs w
       = Some (if signalAborted w then Returned else Threw (DownloadVideoFailed NoTsSegments), w)"
  by (simp add: downloadVideo_def videoHandler_def)

theorem empty_playlist_error_witness:
  "downloadVideo exampleFetch exampleURL exampleBody ''http://cdn/e/empty.m3u8'' ''out.mp4'' 5
      [Resolved 0] freshWorld
     = Some (Threw (DownloadVideoFailed NoTsSegments), freshWorld)"
proof -
  have p: "parseM3u8 exampleFetch exampleURL ''http://cdn/e/empty.m3u8'' = Some (Inr [])"
    by code_simp
  have n: "\<not> signalAborted freshWorld"
    by (simp add: freshWorld_def)
  from empty_playlist_error [OF p, of exampleBody "''out.mp4''" 5 "[Resolved 0]" freshWorld] n
  show ?thesis by simp
qed

text \<open>
  Claim C7.  The loop over the episodes is the loop over any first part followed, from
  the world that part left, by the loop over the rest: one episode after the other, in
  the order of the list.  When the episodes before one have returned normally, the
  signal is not aborted and the download of that episode throws \<open>e\<close>, then
  \<open>downloadPlaylist\<close> throws its error around \<open>e\<close>, the failing download saved no file,
  and the files saved before are all still there, in their order.  Every error of
  \<open>downloadPlaylist\<close> is its error around an error of \<open>downloadVideo\<close> and is thrown
  only while the signal is not aborted; and whatever \<open>downloadPlaylist\<close> returns, the
  files saved before it are a prefix of the files saved after it.
\<close>

theorem downloadPlaylist_failure:
  "(playlistLoop fetchText URL_parse body titles baseFilename maxConcurrent schedule n i
        (pre @ post) w =
      (case playlistLoop fetchText URL_parse body titles baseFilename maxConcurrent schedule n i
              pre w of
         None \<Rightarrow> None
       | Some (Threw e, w1) \<Rightarrow> Some (Threw e, w1)
       | Some (Returned, w1) \<Rightarrow>
           playlistLoop fetchText URL_parse body titles baseFilename maxConcurrent schedule n
             (i + length pre) post w1))
   \<and> (playlistLoop fetchText URL_parse body titles baseFilename maxConcurrent schedule
          (length (pre @ m # post)) 0 pre w = Some (Returned, w1)
        \<and> \<not> signalAborted w1
        \<and> downloadVideo fetchText URL_parse body m (episodeFilename titles baseFilename (length pre))
            maxConcurrent (schedule (length pre)) w1 = Some (Threw e, w2) \<longrightarrow>
        downloadPlaylist fetchText URL_parse body (pre @ m # post) titles baseFilename maxConcurrent
            schedule w
          = Some (Threw (DownloadPlaylistFailed e),
                  forwardProgress (length pre) (length (pre @ m # post)) w1 w2)
        \<and> saved (forwardProgress (length pre) (length (pre @ m # post)) w1 w2) = saved w1
        \<and> (\<exists>ys. saved w1 = saved w @ ys)
        \<and> (\<exists>e'. e = DownloadVideoFailed e'))
   \<and> (downloadPlaylist fetchText URL_parse body episodes titles baseFilename maxConcurrent
          schedule w = Some (Threw x, w') \<longrightarrow>
        (\<exists>e'. x = DownloadPlaylistFailed (DownloadVideoFailed e')) \<and> \<not> signalAborted w')
   \<and> (downloadPlaylist fetchText URL_parse body episodes titles baseFilename maxConcurrent
          schedule w = Some (out, w') \<longrightarrow> (\<exists>ys. saved w' = saved w @ ys))"
proof (intro conjI impI)
  show "playlistLoop fetchText URL_parse body titles baseFilename maxConcurrent schedule n i
        (pre @ post) w =
      (case playlistLoop fetchText URL_parse body titles baseFilename maxConcurrent schedule n i
              pre w of
         None \<Rightarrow> None
       | Some (Threw e, w1) \<Rightarrow> Some (Threw e, w1)
       | Some (Returned, w1) \<Rightarrow>
           playlistLoop fetchText URL_parse body titles baseFilename maxConcurrent schedule n
             (i + length pre) post w1)"
    by (rule playlistLoop_append)
next
  assume h: "playlistLoop fetchText URL_parse body titles baseFilename maxConcurrent schedule
          (length (pre @ m # post)) 0 pre w = Some (Returned, w1)
        \<and> \<not> signalAborted w1
        \<and> downloadVideo fetchText URL_parse body m (episodeFilename titles baseFilename (length pre))
            maxConcurrent (schedule (length pre)) w1 = Some (Threw e, w2)"
  let ?n = "length (pre @ m # post)"
  from h have dv: "downloadVideo fetchText URL_parse body m
      (episodeFilename titles baseFilename (length pre)) maxConcurrent (schedule (length pre)) w1
      = Some (Threw e, w2)" by blast
  note th = downloadVideo_threw [OF dv]
  have "playlistLoop fetchText URL_parse body titles baseFilename maxConcurrent schedule ?n
      (length pre) (m # post) w1 = Some (Threw e, forwardProgress (length pre) ?n w1 w2)"
    using h by simp
  then have loop: "playlistLoop fetchText URL_parse body titles baseFilename maxConcurrent schedule ?n 0
      (pre @ m # post) w = Some (Threw e, forwardProgress (length pre) ?n w1 w2)"
    using h playlistLoop_append [of fetchText URL_parse body titles baseFilename maxConcurrent
        schedule ?n 0 pre "m # post" w]
    by simp
  show "downloadPlaylist fetchText URL_parse body (pre @ m # post) titles baseFilename maxConcurrent
            schedule w
          = Some (Threw (DownloadPlaylistFailed e), forwardProgress (length pre) ?n w1 w2)"
    using loop th by (simp add: downloadPlaylist_def forwardProgress_fields)
  show "saved (forwardProgress (length pre) ?n w1 w2) = saved w1"
    using th by (simp add: forwardProgress_fields)
  show "\<exists>ys. saved w1 = saved w @ ys"
    using h playlistLoop_saved by blast
  show "\<exists>e'. e = DownloadVideoFailed e'"
    using th by blast
next
  assume h: "downloadPlaylist fetchText URL_parse body episodes titles baseFilename maxConcurrent
          schedule w = Some (Threw x, w')"
  then obtain e where l: "playlistLoop fetchText URL_parse body titles baseFilename maxConcurrent
      schedule (length episodes) 0 episodes w = Some (Threw e, w')"
    and x: "x = DownloadPlaylistFailed e" and na: "\<not> signalAborted w'"
    by (auto simp: downloadPlaylist_def split: option.splits prod.splits outcome.splits if_splits)
  from playlistLoop_threw [OF l] x show "\<exists>e'. x = DownloadPlaylistFailed (DownloadVideoFailed e')"
    by blast
  show "\<not> signalAborted w'" by (rule na)
next
  assume "downloadPlaylist fetchText URL_parse body episodes titles baseFilename maxConcurrent
          schedule w = Some (out, w')"
  then obtain o1 where "playlistLoop fetchText URL_parse body titles baseFilename maxConcurrent
      schedule (length episodes) 0 episodes w = Some (o1, w')"
    by (auto simp: downloadPlaylist_def split: option.splits prod.splits outcome.splits if_splits)
  then show "\<exists>ys. saved w' = saved w @ ys"
    by (rule playlistLoop_saved)
qed

text \<open>
  Two episodes, the first with the title \<open>one\<close>; the playlist of the second cannot be
  fetched.  The first file is saved, then the series throws, and the saved file is
  still the only one.
\<close>

theorem downloadPlaylist_failure_witness:
  "downloadPlaylist exampleFetch exampleURL exampleBody
      [''http://cdn/p/index.m3u8'', ''http://cdn/x/missing.m3u8''] [''one''] ''show'' 3
      (\<lambda>i. [Resolved 2, Resolved 0, Resolved 1]) freshWorld
     = Some (Threw (DownloadPlaylistFailed (DownloadVideoFailed (ParseM3u8Failed NetworkError))),
         \<lparr>signalAborted = False,
          saved = [(\<lparr>blobBytes = [1, 2, 3, 4, 5, 6], blobType = ''video/mp4''\<rparr>, ''show - one.mp4'')],
          segmentFetches = [''http://cdn/p/a.ts'', ''http://cdn/p/b.ts'', ''http://cdn/p/c.ts''],
          progressCalls = [(33, 1, 3), (67, 2, 3), (100, 3, 3)],
          seriesProgress = [(1, 2, 33), (1, 2, 67), (1, 2, 100)]\<rparr>)
   \<and> (\<exists>e'. DownloadPlaylistFailed (DownloadVideoFailed (ParseM3u8Failed NetworkError))
          = DownloadPlaylistFailed (DownloadVideoFailed e'))
   \<and> (\<exists>ys. [(\<lparr>blobBytes = [1, 2, 3, 4, 5, 6], blobType = ''video/mp4''\<rparr>, ''show - one.mp4'')]
          = saved freshWorld @ ys)"
proof -
  let ?sch = "\<lambda>i::nat. [Resolved 2, Resolved 0, Resolved 1]"
  let ?w1 = "\<lparr>signalAborted = False,
          saved = [(\<lparr>blobBytes = [1, 2, 3, 4, 5, 6], blobType = ''video/mp4''\<rparr>, ''show - one.mp4'')],
          segmentFetches = [''http://cdn/p/a.ts'', ''http://cdn/p/b.ts'', ''http://cdn/p/c.ts''],
          progressCalls = [(33, 1, 3), (67, 2, 3), (100, 3, 3)],
          seriesProgress = [(1, 2, 33), (1, 2, 67), (1, 2, 100)]\<rparr>"
  let ?e = "DownloadVideoFailed (ParseM3u8Failed NetworkError)"
  have len: "length ([''http://cdn/p/index.m3u8''] @ ''http://cdn/x/missing.m3u8'' # []) = 2"
    "length [''http://cdn/p/index.m3u8''] = 1"
    by simp_all
  have first: "playlistLoop exampleFetch exampleURL exampleBody [''one''] ''show'' 3 ?sch 2 0
      [''http://cdn/p/index.m3u8''] freshWorld = Some (Returned, ?w1)"
    by code_simp
  have na: "\<not> signalAborted ?w1"
    by simp
  have second: "downloadVideo exampleFetch exampleURL exampleBody ''http://cdn/x/missing.m3u8''
      (episodeFilename [''one''] ''show'' 1) 3 (?sch 1) ?w1 = Some (Threw ?e, ?w1)"
    by code_simp
  have fw: "forwardProgress 1 2 ?w1 ?w1 = ?w1"
    by (simp add: forwardProgress_def)
  have h: "playlistLoop exampleFetch exampleURL exampleBody [''one''] ''show'' 3 ?sch
          (length ([''http://cdn/p/index.m3u8''] @ ''http://cdn/x/missing.m3u8'' # [])) 0
          [''http://cdn/p/index.m3u8''] freshWorld = Some (Returned, ?w1)
        \<and> \<not> signalAborted ?w1
        \<and> downloadVideo exampleFetch exampleURL exampleBody ''http://cdn/x/missing.m3u8''
            (episodeFilename [''one''] ''show'' (length [''http://cdn/p/index.m3u8'']))
            3 (?sch (length [''http://cdn/p/index.m3u8''])) ?w1 = Some (Threw ?e, ?w1)"
    unfolding len using first na second by (intro conjI)
  note t = downloadPlaylist_failure [where fetchText = exampleFetch and URL_parse = exampleURL
      and body = exampleBody and titles = "[''one'']" and baseFilename = "''show''"
      and maxConcurrent = 3 and schedule = ?sch and pre = "[''http://cdn/p/index.m3u8'']"
      and m = "''http://cdn/x/missing.m3u8''" and post = "[]" and w = freshWorld
      and ?w1.0 = ?w1 and ?w2.0 = ?w1 and e = ?e]
  have "downloadPlaylist exampleFetch exampleURL exampleBody
      ([''http://cdn/p/index.m3u8''] @ ''http://cdn/x/missing.m3u8'' # []) [''one''] ''show'' 3 ?sch
      freshWorld
    = Some (Threw (DownloadPlaylistFailed ?e),
        forwardProgress (length [''http://cdn/p/index.m3u8''])
          (length ([''http://cdn/p/index.m3u8''] @ ''http://cdn/x/missing.m3u8'' # [])) ?w1 ?w1)"
    by (rule t [THEN conjunct2, THEN conjunct1, THEN mp, OF h, THEN conjunct1])
  then have r: "downloadPlaylist exampleFetch exampleURL exampleBody
      [''http://cdn/p/index.m3u8'', ''http://cdn/x/missing.m3u8''] [''one''] ''show'' 3 ?sch
      freshWorld = Some (Threw (DownloadPlaylistFailed ?e), ?w1)"
    unfolding len fw by simp
  note t' = downloadPlaylist_failure [where fetchText = exampleFetch and URL_parse = exampleURL
      and body = exampleBody and titles = "[''one'']" and baseFilename = "''show''"
      and maxConcurrent = 3 and schedule = ?sch
      and episodes = "[''http://cdn/p/index.m3u8'', ''http://cdn/x/missing.m3u8'']"
      and w = freshWorld and x = "DownloadPlaylistFailed ?e" and out = "Threw (DownloadPlaylistFailed ?e)"
      and w' = ?w1]
  have r3: "\<exists>e'. DownloadPlaylistFailed ?e = DownloadPlaylistFailed (DownloadVideoFailed e')"
    by (rule t' [THEN conjunct2, THEN conjunct2, THEN conjunct1, THEN mp, OF r, THEN conjunct1])
  have "\<exists>ys. saved ?w1 = saved freshWorld @ ys"
    by (rule t' [THEN conjunct2, THEN conjunct2, THEN conjunct2, THEN mp, OF r])
  then have r4: "\<exists>ys. [(\<lparr>blobBytes = [1, 2, 3, 4, 5, 6], blobType = ''video/mp4''\<rparr>, ''show - one.mp4'')]
      = saved freshWorld @ ys"
    by simp
  from r r3 r4 show ?thesis by (intro conjI)
qed

section \<open>The check after the workers\<close>

text \<open>
  The test of \<open>downloadInParallel\<close> after the workers holds for every array: \<open>every\<close>
  passes over the indices that were never assigned.  So \<open>downloadInParallel\<close> never
  throws \<open>PartialDownload\<close>; an array with an empty slot fails in \<open>mergeArrayBuffers\<close>.
\<close>

lemma allDownloaded_always: "allDownloaded buffers"
  by (induction buffers) (auto simp: allDownloaded_def notUndefined_def split: option.splits)

lemma downloadInParallel_no_error:
  "downloadInParallel body tsUrls maxConcurrent evs a = Some (r, s) \<Longrightarrow> r = None"
  by (auto simp: downloadInParallel_def Let_def allDownloaded_always split: if_splits)

text \<open>
  All the same a file is saved only when every slot is filled: what \<open>downloadVideo\<close>
  saves is the bodies of all segments of the playlist, in the order of the playlist.
\<close>

lemma downloadVideo_saved_complete:
  assumes dv: "downloadVideo fetchText URL_parse body m3u8Url filename maxConcurrent evs w
      = Some (out, w')"
  shows "saved w' = saved w
    \<or> (\<exists>tsUrls. parseM3u8 fetchText URL_parse m3u8Url = Some (Inr tsUrls) \<and> out = Returned
          \<and> saved w' = saved w @
              [(\<lparr>blobBytes = concat (map body tsUrls), blobType = ''video/mp4''\<rparr>, filename)])"
proof (cases "saved w' = saved w")
  case True
  then show ?thesis by simp
next
  case False
  from dv False obtain tsUrls s b where p: "parseM3u8 fetchText URL_parse m3u8Url = Some (Inr tsUrls)"
    and ne: "tsUrls \<noteq> []"
    and par: "downloadInParallel body tsUrls maxConcurrent evs (signalAborted w) = Some (None, s)"
    and mg: "mergeArrayBuffers (tsBuffers s) = Inr b"
    and res: "out = Returned" "w' = saveBlobToFile b filename (commit s w)"
    by (auto simp: downloadVideo_def commit_fields
        split: option.splits sum.splits if_splits prod.splits dest!: videoHandler_cases)
  have "\<not> signalAborted w"
  proof
    assume "signalAborted w"
    with par have "s = initial tsUrls True" by (simp add: downloadInParallel_def)
    with mg initial_aborted_merge [OF ne] show False by auto
  qed
  with par have "s = run body (length tsUrls) evs (started tsUrls maxConcurrent)"
    by (auto simp: downloadInParallel_def Let_def split: if_splits)
  then have "slotsOk body tsUrls s" by (simp add: reached_slotsOk)
  from reached_merge [OF this mg]
  have "b = \<lparr>blobBytes = concat (map body tsUrls), blobType = ''video/mp4''\<rparr>" by simp
  with p res show ?thesis
    by (simp add: saveBlobToFile_def commit_fields)
qed

text \<open>
  Claim C9 at three segments and \<open>maxConcurrent = 0\<close>, with no abort: no worker is
  started, all three slots stay empty, the test after the workers passes and
  \<open>downloadInParallel\<close> returns without an error; \<open>mergeArrayBuffers\<close> then throws a
  TypeError, and that, not \<open>PartialDownload\<close>, is the error \<open>downloadVideo\<close> reports.
  The same happens after an abort that leaves slots empty, where the handler
  swallows the TypeError.
\<close>

theorem partial_check_passes_over_holes:
  "tsBuffers (started exampleUrls 0) = [None, None, None]
   \<and> allDownloaded (tsBuffers (started exampleUrls 0))
   \<and> downloadInParallel exampleBody exampleUrls 0 [] False = Some (None, started exampleUrls 0)
   \<and> mergeArrayBuffers (tsBuffers (started exampleUrls 0)) = Inl TypeError
   \<and> downloadVideo exampleFetch exampleURL exampleBody ''http://cdn/p/index.m3u8'' ''out.mp4'' 0 []
        freshWorld
      = Some (Threw (DownloadVideoFailed TypeError), freshWorld)
   \<and> map_option fst (downloadInParallel exampleBody exampleUrls 2 [Abort, Rejected 0, Rejected 1] False)
      = Some None"
  by code_simp

end
